theory Spec2Isabelle
  imports Main "HOL-Library.Word"
begin

unbundle bit_operations_syntax

section \<open>Machine integers and constants of the ORC stripe decoder\<close>

text \<open>
  The decoder of \<^verbatim>\<open>stripe_data.cu\<close> works on \<^verbatim>\<open>uint8_t\<close>, \<^verbatim>\<open>uint16_t\<close>,
  \<^verbatim>\<open>uint32_t\<close>/\<^verbatim>\<open>int32_t\<close> and \<^verbatim>\<open>uint64_t\<close>/\<^verbatim>\<open>int64_t\<close> values. Data
  values are words of that width (signed and unsigned share the bits: \<open>sint\<close> and
  \<open>unat\<close> read them). Positions and counters are natural numbers; where the source
  computes them in \<^verbatim>\<open>uint32_t\<close> the reduction \<open>u32\<close> modulo \<open>2 ^ 32\<close> is written out.
\<close>

type_synonym u8 = "8 word"
type_synonym u16 = "16 word"
type_synonym u32 = "32 word"
type_synonym u64 = "64 word"

definition u32 :: "nat \<Rightarrow> nat" where
  "u32 n = n mod 2 ^ 32"

definition LOG2_BYTESTREAM_BFRSZ :: nat where
  "LOG2_BYTESTREAM_BFRSZ = 13"

definition BYTESTREAM_BFRSZ :: nat where
  "BYTESTREAM_BFRSZ = 2 ^ 13"

definition NWARPS :: nat where
  "NWARPS = 32"

definition NTHREADS :: nat where
  "NTHREADS = 1024"

section \<open>The byte stream\<close>

text \<open>
  \<^verbatim>\<open>orc_bytestream_s\<close>: \<open>bs_base\<close> is the memory seen from the (8-byte aligned)
  base pointer, \<open>bs_buf\<close> the circular buffer \<^verbatim>\<open>buf.u8\<close> of \<open>BYTESTREAM_BFRSZ\<close>
  bytes. The \<^verbatim>\<open>u32\<close> view of the buffer is little-endian, as on the device.
\<close>

record orc_bytestream_s =
  bs_base :: "nat \<Rightarrow> u8"
  bs_pos :: nat
  bs_len :: nat
  bs_buf :: "nat \<Rightarrow> u8"

definition bytestream_init :: "(nat \<Rightarrow> u8) \<Rightarrow> nat \<Rightarrow> nat \<Rightarrow> (nat \<Rightarrow> u8) \<Rightarrow> orc_bytestream_s" where
  "bytestream_init mem addr n b0 =
     (let p = addr mod 8 in
      \<lparr> bs_base = (\<lambda>i. mem (addr - p + i)),
        bs_pos = (if n > 0 then p else 0),
        bs_len = (u32 (n + p + 7) div 8) * 8,
        bs_buf = b0 \<rparr>)"

definition bytestream_flush_bytes :: "orc_bytestream_s \<Rightarrow> nat \<Rightarrow> orc_bytestream_s \<times> nat" where
  "bytestream_flush_bytes bs bytes_consumed =
     (let p = bs_pos bs;
          pos_new = min (u32 (p + bytes_consumed)) (bs_len bs)
      in (bs\<lparr>bs_pos := pos_new\<rparr>, u32 (pos_new div 8 + 2 ^ 32 - p div 8)))"

text \<open>
  \<^verbatim>\<open>bytestream_fill\<close> run by all \<open>NTHREADS\<close> lanes: lane \<open>t < count\<close> copies the
  8-byte word \<open>(pos >> 3) + t\<close> of the stream into slot \<open>((pos >> 3) + t) & 1023\<close>.
  Byte \<open>j\<close> of the buffer is therefore rewritten by the lane
  \<open>t = (j div 8 - pos div 8) mod 1024\<close> when that lane is below \<open>count\<close>.
\<close>

definition bytestream_fill :: "orc_bytestream_s \<Rightarrow> nat \<Rightarrow> nat \<Rightarrow> orc_bytestream_s" where
  "bytestream_fill bs p count =
     bs\<lparr>bs_buf := (\<lambda>j.
        let t = (j div 8 + 1024 - (p div 8) mod 1024) mod 1024 in
        if j < BYTESTREAM_BFRSZ \<and> t < min count NTHREADS
        then bs_base bs ((p div 8 + t) * 8 + j mod 8)
        else bs_buf bs j)\<rparr>"

definition bytestream_initbuf :: "orc_bytestream_s \<Rightarrow> orc_bytestream_s" where
  "bytestream_initbuf bs = bytestream_fill bs 0 (min (bs_len bs) BYTESTREAM_BFRSZ div 8)"

definition bytestream_readbyte :: "orc_bytestream_s \<Rightarrow> nat \<Rightarrow> u8" where
  "bytestream_readbyte bs p = bs_buf bs (p mod BYTESTREAM_BFRSZ)"

text \<open>\<^verbatim>\<open>buf.u32[k]\<close>: the four bytes \<open>4k .. 4k+3\<close>, least significant first.\<close>

definition buf_u32 :: "orc_bytestream_s \<Rightarrow> nat \<Rightarrow> u32" where
  "buf_u32 bs k =
     ucast (bs_buf bs (4 * k)) OR push_bit 8 (ucast (bs_buf bs (4 * k + 1)))
     OR push_bit 16 (ucast (bs_buf bs (4 * k + 2))) OR push_bit 24 (ucast (bs_buf bs (4 * k + 3)))"

text \<open>\<^verbatim>\<open>__funnelshift_r(lo, hi, s)\<close>: the low 32 bits of \<open>hi:lo >> (s & 31)\<close>.\<close>

definition funnelshift_r :: "u32 \<Rightarrow> u32 \<Rightarrow> nat \<Rightarrow> u32" where
  "funnelshift_r lo hi s =
     ucast (drop_bit (s mod 32) ((push_bit 32 (ucast hi) OR ucast lo) :: u64))"

text \<open>\<^verbatim>\<open>__funnelshift_l(lo, hi, s)\<close>: the high 32 bits of \<open>hi:lo << (s & 31)\<close>.\<close>

definition funnelshift_l :: "u32 \<Rightarrow> u32 \<Rightarrow> nat \<Rightarrow> u32" where
  "funnelshift_l lo hi s =
     ucast (drop_bit 32 (push_bit (s mod 32) ((push_bit 32 (ucast hi) OR ucast lo) :: u64)))"

definition bytestream_readu32 :: "orc_bytestream_s \<Rightarrow> nat \<Rightarrow> u32" where
  "bytestream_readu32 bs p =
     (let a = buf_u32 bs ((p mod BYTESTREAM_BFRSZ) div 4);
          b = buf_u32 bs (((p + 4) mod BYTESTREAM_BFRSZ) div 4)
      in funnelshift_r a b ((p mod 4) * 8))"

text \<open>\<^verbatim>\<open>__ffs\<close>: 1-based position of the least significant set bit, 0 for 0.\<close>

definition ffs :: "u32 \<Rightarrow> nat" where
  "ffs x = (case filter (bit x) [0..<32] of [] \<Rightarrow> 0 | i # _ \<Rightarrow> Suc i)"

section \<open>Base-128 varints\<close>

text \<open>
  \<^verbatim>\<open>varint_length<T>\<close>; \<open>wide\<close> is \<^verbatim>\<open>sizeof(T) > 4\<close>.
\<close>

definition varint_length :: "bool \<Rightarrow> orc_bytestream_s \<Rightarrow> nat \<Rightarrow> nat" where
  "varint_length wide bs p =
     (if bytestream_readbyte bs p > 0x7f then
        (let next32 = bytestream_readu32 bs p;
             l = 1 + ffs ((NOT next32) AND 0x80808080) div 8
         in if wide \<and> l = 5
            then (let next32 = bytestream_readu32 bs (p + 4)
                  in u32 (l + ffs ((NOT next32) AND 0x80808080) div 8))
            else l)
      else 1)"

text \<open>
  \<^verbatim>\<open>decode_varint<T>\<close> for the unsigned \<^verbatim>\<open>T\<close>: the new position and the value,
  which for \<^verbatim>\<open>uint32_t\<close> is the 32-bit accumulator \<open>v\<close> (zero-extended here).
\<close>

definition decode_varint :: "bool \<Rightarrow> orc_bytestream_s \<Rightarrow> nat \<Rightarrow> nat \<times> u64" where
  "decode_varint wide bs p0 =
     (let v = (ucast (bytestream_readbyte bs p0) :: u32) in
      if v > 0x7f then
        let b = (ucast (bytestream_readbyte bs (p0 + 1)) :: u32);
            v = (v AND 0x7f) OR push_bit 7 b in
        if b > 0x7f then
          let b = (ucast (bytestream_readbyte bs (p0 + 2)) :: u32);
              v = (v AND 0x3fff) OR push_bit 14 b in
          if b > 0x7f then
            let b = (ucast (bytestream_readbyte bs (p0 + 3)) :: u32);
                v = (v AND 0x1fffff) OR push_bit 21 b in
            if b > 0x7f then
              let b = (ucast (bytestream_readbyte bs (p0 + 4)) :: u32);
                  v = (v AND 0x0fffffff) OR push_bit 28 b in
              if wide \<and> b > 0x7f then
                let lo = v;
                    v = drop_bit 4 b AND 7;
                    b = (ucast (bytestream_readbyte bs (p0 + 5)) :: u32);
                    v = v OR push_bit 3 b;
                    (p, v) =
                      (if b > 0x7f then
                         let b = (ucast (bytestream_readbyte bs (p0 + 6)) :: u32);
                             v = (v AND 0x3ff) OR push_bit 10 b in
                         if b > 0x7f then
                           let b = (ucast (bytestream_readbyte bs (p0 + 7)) :: u32);
                               v = (v AND 0x1ffff) OR push_bit 17 b in
                           if b > 0x7f then
                             let b = (ucast (bytestream_readbyte bs (p0 + 8)) :: u32);
                                 v = (v AND 0xffffff) OR push_bit 24 b in
                             if b > 0x7f then (p0 + 10, v) else (p0 + 9, v)
                           else (p0 + 8, v)
                         else (p0 + 7, v)
                       else (p0 + 6, v))
                in (p, push_bit 32 (ucast v) OR ucast lo)
              else (p0 + 5, ucast v)
            else (p0 + 4, ucast v)
          else (p0 + 3, ucast v)
        else (p0 + 2, ucast v)
      else (p0 + 1, ucast v))"

definition decode_varint_u32 :: "orc_bytestream_s \<Rightarrow> nat \<Rightarrow> nat \<times> u32" where
  "decode_varint_u32 bs p = (let (p', v) = decode_varint False bs p in (p', ucast v))"

definition decode_varint_u64 :: "orc_bytestream_s \<Rightarrow> nat \<Rightarrow> nat \<times> u64" where
  "decode_varint_u64 bs p = decode_varint True bs p"

text \<open>The zig-zag step of the signed overloads: \<^verbatim>\<open>(u >> 1) ^ -(u & 1)\<close>.\<close>

definition zigzag32 :: "u32 \<Rightarrow> u32" where
  "zigzag32 u = drop_bit 1 u XOR - (u AND 1)"

definition zigzag64 :: "u64 \<Rightarrow> u64" where
  "zigzag64 u = drop_bit 1 u XOR - (u AND 1)"

definition decode_varint_i32 :: "orc_bytestream_s \<Rightarrow> nat \<Rightarrow> nat \<times> u32" where
  "decode_varint_i32 bs p = (let (p', u) = decode_varint_u32 bs p in (p', zigzag32 u))"

definition decode_varint_i64 :: "orc_bytestream_s \<Rightarrow> nat \<Rightarrow> nat \<times> u64" where
  "decode_varint_i64 bs p = (let (p', u) = decode_varint_u64 bs p in (p', zigzag64 u))"

text \<open>
  Modelled from the spec: the encoder \<^verbatim>\<open>encode_varint\<close> is not part of the
  repository (it only reads ORC files). The canonical base-128 little-endian varint of
  \<open>n\<close>: seven bits per byte, least significant group first, the high bit of a byte
  set when another byte follows.
\<close>

fun encode_varint :: "nat \<Rightarrow> u8 list" where
  "encode_varint n =
     (if n < 128 then [of_nat n] else of_nat (n mod 128 + 128) # encode_varint (n div 128))"

text \<open>
  Modelled from the spec: the zig-zag encoder that the signed decode inverts,
  \<^verbatim>\<open>(x << 1) ^ (x >> 31)\<close> with an arithmetic right shift.
\<close>

definition zigzag_encode32 :: "u32 \<Rightarrow> u32" where
  "zigzag_encode32 x = push_bit 1 x XOR signed_drop_bit 31 x"

definition zigzag_encode64 :: "u64 \<Rightarrow> u64" where
  "zigzag_encode64 x = push_bit 1 x XOR signed_drop_bit 63 x"

text \<open>
  A stream holding the bytes \<open>xs\<close> at an 8-byte aligned address, initialised and
  with its buffer filled as the kernels do (\<^verbatim>\<open>bytestream_init\<close>,
  \<^verbatim>\<open>bytestream_initbuf\<close>); memory after the stream and the not yet filled
  buffer slots read as 0.
\<close>

definition bytes_mem :: "u8 list \<Rightarrow> nat \<Rightarrow> u8" where
  "bytes_mem xs i = (if i < length xs then xs ! i else 0)"

definition stream_of :: "u8 list \<Rightarrow> orc_bytestream_s" where
  "stream_of xs = bytestream_initbuf (bytestream_init (bytes_mem xs) 0 (length xs) (\<lambda>_. 0))"

section \<open>Integer RLE version 1\<close>

text \<open>
  \<^verbatim>\<open>Integer_RLEv1<T>\<close>. The value array \<^verbatim>\<open>vals\<close> is a function from index to
  \<^verbatim>\<open>T\<close>; \<open>wide\<close> is \<^verbatim>\<open>sizeof(T) > 4\<close> and \<open>dec\<close> the overload of
  \<^verbatim>\<open>decode_varint\<close> that \<^verbatim>\<open>T\<close> selects.

  One entry of \<^verbatim>\<open>run_data\<close>: \<^verbatim>\<open>(delta << 24) | (n << 16) | numvals\<close>, where
  \<open>delta\<close> is the byte read from the stream.
\<close>

definition rlev1_pack :: "u8 \<Rightarrow> nat \<Rightarrow> nat \<Rightarrow> u32" where
  "rlev1_pack delta n numvals = push_bit 24 (ucast delta) OR push_bit 16 (of_nat n) OR of_nat numvals"

text \<open>The fields as the expansion step reads them back from the \<^verbatim>\<open>int32_t\<close> entry.\<close>

definition rlev1_run_n :: "u32 \<Rightarrow> nat" where
  "rlev1_run_n run_data = unat (signed_drop_bit 16 run_data AND 0xff)"

definition rlev1_run_delta :: "u32 \<Rightarrow> u32" where
  "rlev1_run_delta run_data = signed_drop_bit 24 run_data"

definition rlev1_run_base :: "u32 \<Rightarrow> nat" where
  "rlev1_run_base run_data = unat (run_data AND 0x3ff)"

text \<open>
  The \<^verbatim>\<open>do ... while (++i < n)\<close> loop over the literals of a block (\<open>n \<ge> 1\<close> there):
  slot \<open>numvals + i\<close> receives the stream position of the \<open>i\<close>-th literal.
\<close>

fun rlev1_literals ::
  "bool \<Rightarrow> orc_bytestream_s \<Rightarrow> nat \<Rightarrow> nat \<Rightarrow> nat \<Rightarrow> (nat \<Rightarrow> 'a::len word) \<Rightarrow> nat \<times> (nat \<Rightarrow> 'a word)" where
  "rlev1_literals wide bs 0 k p vals = (p, vals)"
| "rlev1_literals wide bs (Suc m) k p vals =
     rlev1_literals wide bs m (Suc k) (u32 (p + varint_length wide bs p)) (vals(k := of_nat (p mod 65536)))"

text \<open>
  The scan of lane 0, \<^verbatim>\<open>while (numvals < maxvals && numruns < NWARPS*12)\<close>, on the
  state \<open>(numvals, numruns, lastpos, vals, run_data)\<close>. A \<^verbatim>\<open>break\<close> returns the
  state as it is at that point.
\<close>

partial_function (option) rlev1_scan ::
  "bool \<Rightarrow> orc_bytestream_s \<Rightarrow> nat \<Rightarrow> nat \<Rightarrow>
   nat \<times> nat \<times> nat \<times> (nat \<Rightarrow> 'a::len word) \<times> (nat \<Rightarrow> u32) \<Rightarrow>
   (nat \<times> nat \<times> nat \<times> (nat \<Rightarrow> 'a word) \<times> (nat \<Rightarrow> u32)) option" where
  "rlev1_scan wide bs maxvals maxpos st =
     (case st of (numvals, numruns, lastpos, vals, run_data) \<Rightarrow>
      if numvals < maxvals \<and> numruns < NWARPS * 12 then
        (let c = unat (bytestream_readbyte bs lastpos);
             p1 = u32 (lastpos + 1)
         in if c \<le> 0x7f then
              (let n = c + 3 in
               if u32 (numvals + n) > maxvals then Some st
               else
                 (let delta = bytestream_readbyte bs p1;
                      p2 = u32 (p1 + 1);
                      vals' = vals(numvals := of_nat (p2 mod 65536));
                      p3 = u32 (p2 + varint_length wide bs p2)
                  in if p3 > maxpos then Some (numvals, numruns, lastpos, vals', run_data)
                     else rlev1_scan wide bs maxvals maxpos
                            (u32 (numvals + n), numruns + 1, p3, vals',
                             run_data(numruns := rlev1_pack delta n numvals))))
            else
              (let n = 0x100 - c in
               if u32 (numvals + n) > maxvals then Some st
               else
                 (case rlev1_literals wide bs n numvals p1 vals of (p3, vals') \<Rightarrow>
                  if p3 > maxpos then Some (numvals, numruns, lastpos, vals', run_data)
                  else rlev1_scan wide bs maxvals maxpos
                         (u32 (numvals + n), numruns, p3, vals', run_data))))
      else Some st)"

declare rlev1_scan.simps [code]

text \<open>
  Expansion of one run: slot \<open>base + i\<close>, \<open>1 \<le> i < n\<close>, receives
  \<^verbatim>\<open>((delta * i) << 16) | pos\<close>. In the kernel the pair (run, \<open>i\<close>) is handled by
  lane \<open>32 * (run mod 32) + (i - 1) mod 32\<close>; every pair is handled once, and the model
  visits the pairs in order.
\<close>

definition rlev1_expand_run :: "u32 \<Rightarrow> (nat \<Rightarrow> 'a::len word) \<Rightarrow> (nat \<Rightarrow> 'a word)" where
  "rlev1_expand_run run_data vals =
     (let n = rlev1_run_n run_data;
          delta = rlev1_run_delta run_data;
          base = rlev1_run_base run_data;
          p = (ucast (vals base AND 0xffff) :: u32)
      in fold (\<lambda>i v. v(base + i := ucast (push_bit 16 (delta * of_nat i) OR p))) [1..<n] vals)"

definition rlev1_expand :: "(nat \<Rightarrow> u32) \<Rightarrow> nat \<Rightarrow> (nat \<Rightarrow> 'a::len word) \<Rightarrow> (nat \<Rightarrow> 'a word)" where
  "rlev1_expand run_data numruns vals = fold (\<lambda>r. rlev1_expand_run (run_data r)) [0..<numruns] vals"

text \<open>
  Lane \<open>t < numvals\<close> decodes the varint at the position held in the low half of its
  slot and adds the \<^verbatim>\<open>int32_t\<close> held in the high half.
\<close>

definition rlev1_decode ::
  "(orc_bytestream_s \<Rightarrow> nat \<Rightarrow> nat \<times> 'a::len word) \<Rightarrow> orc_bytestream_s \<Rightarrow> nat \<Rightarrow>
   (nat \<Rightarrow> 'a word) \<Rightarrow> (nat \<Rightarrow> 'a word)" where
  "rlev1_decode dec bs numvals vals =
     (\<lambda>t. if t < numvals \<and> t < NTHREADS then
             (let p = (ucast (vals t) :: u32);
                  delta = signed_drop_bit 16 p;
                  v = snd (dec bs (unat p))
              in v + scast delta)
           else vals t)"

text \<open>
  The whole call: the count returned, the value array, the stream after the flush and
  refill, and the run table with its length.
\<close>

definition Integer_RLEv1 ::
  "bool \<Rightarrow> (orc_bytestream_s \<Rightarrow> nat \<Rightarrow> nat \<times> 'a::len word) \<Rightarrow> orc_bytestream_s \<Rightarrow>
   (nat \<Rightarrow> u32) \<Rightarrow> (nat \<Rightarrow> 'a word) \<Rightarrow> nat \<Rightarrow>
   (nat \<times> (nat \<Rightarrow> 'a word) \<times> orc_bytestream_s \<times> (nat \<Rightarrow> u32) \<times> nat) option" where
  "Integer_RLEv1 wide dec bs run_data0 vals0 maxvals =
     (let maxpos = min (bs_len bs) (u32 (bs_pos bs + (BYTESTREAM_BFRSZ - 8)))
      in case rlev1_scan wide bs maxvals maxpos (0, 0, bs_pos bs, vals0, run_data0) of
           None \<Rightarrow> None
         | Some (numvals, numruns, lastpos, vals, run_data) \<Rightarrow>
             (let (bs1, fill_count) = bytestream_flush_bytes bs (u32 (lastpos + 2 ^ 32 - bs_pos bs));
                  vals1 = (if numruns > 0 then rlev1_expand run_data numruns vals else vals);
                  vals2 = rlev1_decode dec bs1 numvals vals1;
                  bs2 = bytestream_fill bs1 (bs_pos bs) fill_count
              in Some (numvals, vals2, bs2, run_data, numruns)))"

text \<open>The three instances the kernels use.\<close>

definition Integer_RLEv1_u32 ::
  "orc_bytestream_s \<Rightarrow> (nat \<Rightarrow> u32) \<Rightarrow> (nat \<Rightarrow> u32) \<Rightarrow> nat \<Rightarrow>
   (nat \<times> (nat \<Rightarrow> u32) \<times> orc_bytestream_s \<times> (nat \<Rightarrow> u32) \<times> nat) option" where
  "Integer_RLEv1_u32 = Integer_RLEv1 False decode_varint_u32"

definition Integer_RLEv1_i32 ::
  "orc_bytestream_s \<Rightarrow> (nat \<Rightarrow> u32) \<Rightarrow> (nat \<Rightarrow> u32) \<Rightarrow> nat \<Rightarrow>
   (nat \<times> (nat \<Rightarrow> u32) \<times> orc_bytestream_s \<times> (nat \<Rightarrow> u32) \<times> nat) option" where
  "Integer_RLEv1_i32 = Integer_RLEv1 False decode_varint_i32"

definition Integer_RLEv1_i64 ::
  "orc_bytestream_s \<Rightarrow> (nat \<Rightarrow> u32) \<Rightarrow> (nat \<Rightarrow> u64) \<Rightarrow> nat \<Rightarrow>
   (nat \<times> (nat \<Rightarrow> u64) \<times> orc_bytestream_s \<times> (nat \<Rightarrow> u32) \<times> nat) option" where
  "Integer_RLEv1_i64 = Integer_RLEv1 True decode_varint_i64"

text \<open>The decoded values of a call, as a list, for reading results.\<close>

definition rlev1_values ::
  "(nat \<times> (nat \<Rightarrow> 'a::len word) \<times> orc_bytestream_s \<times> (nat \<Rightarrow> u32) \<times> nat) option \<Rightarrow> (nat \<times> 'a word list) option" where
  "rlev1_values r = (case r of None \<Rightarrow> None
                     | Some (numvals, vals, _) \<Rightarrow> Some (numvals, map vals [0..<numvals]))"

text \<open>
  The runs that the scan discovers, in the order of discovery.  This is the scan once more,
  with a list in place of the table: where the scan stores
  \<^verbatim>\<open>(delta << 24) | (n << 16) | numvals\<close> in \<^verbatim>\<open>run_data[numruns++]\<close>, the three operands
  \<open>(delta, n, numvals)\<close> are appended to the list.
\<close>

partial_function (option) rlev1_scan_runs ::
  "bool \<Rightarrow> orc_bytestream_s \<Rightarrow> nat \<Rightarrow> nat \<Rightarrow>
   nat \<times> nat \<times> nat \<times> (nat \<Rightarrow> 'a::len word) \<times> (u8 \<times> nat \<times> nat) list \<Rightarrow>
   (u8 \<times> nat \<times> nat) list option" where
  "rlev1_scan_runs wide bs maxvals maxpos st =
     (case st of (numvals, numruns, lastpos, vals, runs) \<Rightarrow>
      if numvals < maxvals \<and> numruns < NWARPS * 12 then
        (let c = unat (bytestream_readbyte bs lastpos);
             p1 = u32 (lastpos + 1)
         in if c \<le> 0x7f then
              (let n = c + 3 in
               if u32 (numvals + n) > maxvals then Some runs
               else
                 (let delta = bytestream_readbyte bs p1;
                      p2 = u32 (p1 + 1);
                      vals' = vals(numvals := of_nat (p2 mod 65536));
                      p3 = u32 (p2 + varint_length wide bs p2)
                  in if p3 > maxpos then Some runs
                     else rlev1_scan_runs wide bs maxvals maxpos
                            (u32 (numvals + n), numruns + 1, p3, vals',
                             runs @ [(delta, n, numvals)])))
            else
              (let n = 0x100 - c in
               if u32 (numvals + n) > maxvals then Some runs
               else
                 (case rlev1_literals wide bs n numvals p1 vals of (p3, vals') \<Rightarrow>
                  if p3 > maxpos then Some runs
                  else rlev1_scan_runs wide bs maxvals maxpos
                         (u32 (numvals + n), numruns, p3, vals', runs))))
      else Some runs)"

declare rlev1_scan_runs.simps [code]

text \<open>The runs that a call of \<^verbatim>\<open>Integer_RLEv1\<close> discovers.\<close>

definition Integer_RLEv1_runs ::
  "bool \<Rightarrow> orc_bytestream_s \<Rightarrow> (nat \<Rightarrow> 'a::len word) \<Rightarrow> nat \<Rightarrow> (u8 \<times> nat \<times> nat) list option" where
  "Integer_RLEv1_runs wide bs vals0 maxvals =
     rlev1_scan_runs wide bs maxvals (min (bs_len bs) (u32 (bs_pos bs + (BYTESTREAM_BFRSZ - 8))))
       (0, 0, bs_pos bs, vals0, [])"

text \<open>
  An entry of the table is the record of the run \<open>(delta, n, base)\<close> when it is the packing of
  the three, the length is between 3 and 130, the run lies below \<open>maxvals\<close>, and the three
  reads of the expansion step give \<open>base\<close>, \<open>n\<close> and the sign-extended \<open>delta\<close> back.
\<close>

definition rlev1_run_recorded :: "nat \<Rightarrow> u32 \<Rightarrow> u8 \<times> nat \<times> nat \<Rightarrow> bool" where
  "rlev1_run_recorded maxvals rd run =
     (case run of (delta, n, base) \<Rightarrow>
        rd = rlev1_pack delta n base \<and> 3 \<le> n \<and> n \<le> 130 \<and> base + n \<le> maxvals
        \<and> rlev1_run_base rd = base \<and> rlev1_run_n rd = n \<and> rlev1_run_delta rd = scast delta)"

section \<open>Lengths to positions\<close>

text \<open>
  \<^verbatim>\<open>lengths_to_positions<T>\<close>, run by all \<open>NTHREADS\<close> lanes with a barrier before
  each level. At level \<open>n\<close> lane \<open>t\<close> with \<^verbatim>\<open>(t & n) && (t < numvals)\<close> adds the slot
  \<^verbatim>\<open>(t & ~n) | (n - 1)\<close>, which no lane writes at that level. The operands of the
  index are below \<open>2 ^ 32\<close>, where the bit operations on \<open>int\<close> agree with those on
  \<^verbatim>\<open>unsigned int\<close>.
\<close>

definition l2p_src :: "nat \<Rightarrow> nat \<Rightarrow> nat" where
  "l2p_src t n = nat ((int t AND NOT (int n)) OR (int n - 1))"

definition l2p_level :: "nat \<Rightarrow> nat \<Rightarrow> (nat \<Rightarrow> 'a::len word) \<Rightarrow> (nat \<Rightarrow> 'a word)" where
  "l2p_level n numvals vals =
     (\<lambda>t. if t < NTHREADS \<and> t AND n \<noteq> 0 \<and> t < numvals
          then vals t + vals (l2p_src t n) else vals t)"

text \<open>
  \<^verbatim>\<open>for (n = 1; n < numvals; n <<= 1)\<close> with \<open>n\<close> a \<^verbatim>\<open>uint32_t\<close>: when the shift
  takes \<open>n\<close> to 0 the loop never ends, which is the value \<open>None\<close>.
\<close>

function l2p_loop :: "nat \<Rightarrow> nat \<Rightarrow> (nat \<Rightarrow> 'a::len word) \<Rightarrow> (nat \<Rightarrow> 'a word) option" where
  "l2p_loop n numvals vals =
     (if n < numvals then
        (if n = 0 \<or> 2 ^ 32 \<le> 2 * n then None
         else l2p_loop (2 * n) numvals (l2p_level n numvals vals))
      else Some vals)"
  by pat_completeness auto
termination
  by (relation "measure (\<lambda>(n, numvals, vals). numvals - n)") auto

declare l2p_loop.simps [simp del]

definition lengths_to_positions :: "(nat \<Rightarrow> 'a::len word) \<Rightarrow> nat \<Rightarrow> (nat \<Rightarrow> 'a word) option" where
  "lengths_to_positions vals numvals = l2p_loop 1 numvals vals"

section \<open>Column chunk descriptors\<close>

text \<open>
  Modelled from the spec: \<^verbatim>\<open>orc_common.h\<close> and \<^verbatim>\<open>orc_gpu.h\<close> are not among the sources.
  The encoding kinds are direct or dictionary, each in the RLE generation 1 or 2, in
  the order of the ORC format (\<^verbatim>\<open>DIRECT = 0\<close>, \<^verbatim>\<open>DICTIONARY = 1\<close>, \<^verbatim>\<open>DIRECT_V2 = 2\<close>,
  \<^verbatim>\<open>DICTIONARY_V2 = 3\<close>); a \<^verbatim>\<open>DictionaryEntry\<close> is a (byte offset, byte length) pair.
\<close>

datatype ColumnEncodingKind = DIRECT | DICTIONARY | DIRECT_V2 | DICTIONARY_V2

fun encoding_code :: "ColumnEncodingKind \<Rightarrow> nat" where
  "encoding_code DIRECT = 0"
| "encoding_code DICTIONARY = 1"
| "encoding_code DIRECT_V2 = 2"
| "encoding_code DICTIONARY_V2 = 3"

definition IS_RLEv1 :: "ColumnEncodingKind \<Rightarrow> bool" where
  "IS_RLEv1 encoding_mode = (encoding_code encoding_mode < encoding_code DIRECT_V2)"

definition IS_DICTIONARY :: "ColumnEncodingKind \<Rightarrow> bool" where
  "IS_DICTIONARY encoding_mode = (encoding_code encoding_mode AND 1 \<noteq> 0)"

record DictionaryEntry =
  ent_pos :: u32
  ent_len :: u32

section \<open>String dictionaries\<close>

text \<open>
  \<^verbatim>\<open>orc_strdict_state_s\<close>; \<open>local_dict\<close> is the index in the global dictionary that
  the pointer \<^verbatim>\<open>local_dict\<close> stands at.
\<close>

record orc_strdict_state_s =
  local_dict :: nat
  dict_pos :: u32
  dict_len :: nat

text \<open>
  One pass of \<^verbatim>\<open>while (s->top.dict.dict_len > 0)\<close> after the decoder has returned
  \<open>numvals0\<close> lengths in \<open>vals0\<close>: every lane keeps its length in \<^verbatim>\<open>len\<close>, the lengths
  become positions, a batch without values is replaced by zero entries, lane
  \<open>t < numvals\<close> writes \<^verbatim>\<open>(dict_pos + vals[t] - len, len)\<close> to \<^verbatim>\<open>local_dict[t]\<close>, and
  lane 0 advances the state.
\<close>

definition dict_batch ::
  "nat \<Rightarrow> (nat \<Rightarrow> u32) \<Rightarrow> orc_strdict_state_s \<Rightarrow> (nat \<Rightarrow> DictionaryEntry) \<Rightarrow>
   ((nat \<Rightarrow> u32) \<times> orc_strdict_state_s \<times> (nat \<Rightarrow> DictionaryEntry)) option" where
  "dict_batch numvals0 vals0 st gd =
     (let len = (\<lambda>t. if t < numvals0 then vals0 t else 0)
      in case lengths_to_positions vals0 numvals0 of
           None \<Rightarrow> None
         | Some vals1 \<Rightarrow>
             (let numvals = (if numvals0 = 0 then min (dict_len st) NTHREADS else numvals0);
                  vals = (if numvals0 = 0 then (\<lambda>t. if t < NTHREADS then 0 else vals1 t) else vals1);
                  gd' = (\<lambda>i. let t = i - local_dict st in
                           if local_dict st \<le> i \<and> t < numvals \<and> t < NTHREADS
                           then \<lparr> ent_pos = dict_pos st + vals t - len t, ent_len = len t \<rparr>
                           else gd i)
              in Some (vals,
                       st\<lparr> dict_pos := dict_pos st + vals (numvals - 1),
                           dict_len := u32 (dict_len st + 2 ^ 32 - numvals),
                           local_dict := local_dict st + numvals \<rparr>,
                       gd')))"

text \<open>
  The loop, with the decoder of the LENGTH stream as \<open>rle\<close>: it is given the stream, the
  value array and the number of values wanted, and returns the count, the values and
  the stream.
\<close>

partial_function (option) dict_loop ::
  "(orc_bytestream_s \<Rightarrow> (nat \<Rightarrow> u32) \<Rightarrow> nat \<Rightarrow> (nat \<times> (nat \<Rightarrow> u32) \<times> orc_bytestream_s) option) \<Rightarrow>
   orc_bytestream_s \<times> (nat \<Rightarrow> u32) \<times> orc_strdict_state_s \<times> (nat \<Rightarrow> DictionaryEntry) \<Rightarrow>
   (nat \<Rightarrow> DictionaryEntry) option" where
  "dict_loop rle s =
     (case s of (bs, vals, st, gd) \<Rightarrow>
      if dict_len st > 0 then
        (case rle bs vals (min (dict_len st) NTHREADS) of
           None \<Rightarrow> None
         | Some (numvals, vals', bs') \<Rightarrow>
             (case dict_batch numvals vals' st gd of
                None \<Rightarrow> None
              | Some (vals'', st', gd') \<Rightarrow> dict_loop rle (bs', vals'', st', gd')))
      else Some gd)"

declare dict_loop.simps [code]

text \<open>
  The lengths that the lanes of a pass hold in \<^verbatim>\<open>len\<close>, as a list: the values that the decoder
  returned, or zeros for a pass in which it returned none.
\<close>

definition dict_batch_lens :: "nat \<Rightarrow> (nat \<Rightarrow> u32) \<Rightarrow> orc_strdict_state_s \<Rightarrow> u32 list" where
  "dict_batch_lens numvals0 vals0 st =
     map (\<lambda>t. if t < numvals0 then vals0 t else 0)
       [0..<(if numvals0 = 0 then min (dict_len st) NTHREADS else numvals0)]"

text \<open>
  The lengths of all the passes of the loop, in order: the loop once more, returning the
  lengths of its passes in place of the dictionary.
\<close>

partial_function (option) dict_loop_lens ::
  "(orc_bytestream_s \<Rightarrow> (nat \<Rightarrow> u32) \<Rightarrow> nat \<Rightarrow> (nat \<times> (nat \<Rightarrow> u32) \<times> orc_bytestream_s) option) \<Rightarrow>
   orc_bytestream_s \<times> (nat \<Rightarrow> u32) \<times> orc_strdict_state_s \<times> (nat \<Rightarrow> DictionaryEntry) \<Rightarrow>
   u32 list option" where
  "dict_loop_lens rle s =
     (case s of (bs, vals, st, gd) \<Rightarrow>
      if dict_len st > 0 then
        (case rle bs vals (min (dict_len st) NTHREADS) of
           None \<Rightarrow> None
         | Some (numvals, vals', bs') \<Rightarrow>
             (case dict_batch numvals vals' st gd of
                None \<Rightarrow> None
              | Some (vals'', st', gd') \<Rightarrow>
                  Option.bind (dict_loop_lens rle (bs', vals'', st', gd'))
                    (\<lambda>rest. Some (dict_batch_lens numvals vals' st @ rest))))
      else Some [])"

declare dict_loop_lens.simps [code]

text \<open>
  The dictionary half of \<^verbatim>\<open>gpuDecodeNullsAndStringDictionaries\<close> for one chunk. The
  chunk gives its encoding kind, \<open>dict_len\<close>, \<open>dictionary_start\<close> and the LENGTH stream
  (\<^verbatim>\<open>CI_DATA2\<close>: memory, address, length); \<open>vals\<close>, \<open>run_data\<close> and \<open>buf\<close> are the shared
  scratch as the block finds it; \<open>rlev2\<close> stands for \<^verbatim>\<open>Integer_RLEv2<uint32_t>\<close>.
\<close>

definition rlev1_lengths ::
  "(nat \<Rightarrow> u32) \<Rightarrow> orc_bytestream_s \<Rightarrow> (nat \<Rightarrow> u32) \<Rightarrow> nat \<Rightarrow> (nat \<times> (nat \<Rightarrow> u32) \<times> orc_bytestream_s) option" where
  "rlev1_lengths run_data bs vals maxvals =
     (case Integer_RLEv1_u32 bs run_data vals maxvals of
        None \<Rightarrow> None
      | Some (numvals, vals', bs', _) \<Rightarrow> Some (numvals, vals', bs'))"

definition decode_string_dictionary ::
  "(orc_bytestream_s \<Rightarrow> (nat \<Rightarrow> u32) \<Rightarrow> nat \<Rightarrow> (nat \<times> (nat \<Rightarrow> u32) \<times> orc_bytestream_s) option) \<Rightarrow>
   ColumnEncodingKind \<Rightarrow> nat \<Rightarrow> nat \<Rightarrow> (nat \<Rightarrow> u8) \<Rightarrow> nat \<Rightarrow> nat \<Rightarrow>
   (nat \<Rightarrow> u32) \<Rightarrow> (nat \<Rightarrow> u32) \<Rightarrow> (nat \<Rightarrow> u8) \<Rightarrow>
   (nat \<Rightarrow> DictionaryEntry) \<Rightarrow> (nat \<Rightarrow> DictionaryEntry) option" where
  "decode_string_dictionary rlev2 encoding_kind chunk_dict_len dictionary_start mem addr strm_len
       vals run_data buf global_dictionary =
     (if (encoding_kind = DICTIONARY \<or> encoding_kind = DICTIONARY_V2) \<and> chunk_dict_len > 0 then
        (let st = \<lparr> local_dict = dictionary_start, dict_pos = 0, dict_len = chunk_dict_len \<rparr>;
             bs = bytestream_initbuf (bytestream_init mem addr strm_len buf)
         in dict_loop (if IS_RLEv1 encoding_kind then rlev1_lengths run_data else rlev2)
              (bs, vals, st, global_dictionary))
      else Some global_dictionary)"

text \<open>The lengths that the phase decodes for a chunk, in the order of the entries.\<close>

definition decode_string_dictionary_lengths ::
  "(orc_bytestream_s \<Rightarrow> (nat \<Rightarrow> u32) \<Rightarrow> nat \<Rightarrow> (nat \<times> (nat \<Rightarrow> u32) \<times> orc_bytestream_s) option) \<Rightarrow>
   ColumnEncodingKind \<Rightarrow> nat \<Rightarrow> nat \<Rightarrow> (nat \<Rightarrow> u8) \<Rightarrow> nat \<Rightarrow> nat \<Rightarrow>
   (nat \<Rightarrow> u32) \<Rightarrow> (nat \<Rightarrow> u32) \<Rightarrow> (nat \<Rightarrow> u8) \<Rightarrow>
   (nat \<Rightarrow> DictionaryEntry) \<Rightarrow> u32 list option" where
  "decode_string_dictionary_lengths rlev2 encoding_kind chunk_dict_len dictionary_start mem addr strm_len
       vals run_data buf global_dictionary =
     (if (encoding_kind = DICTIONARY \<or> encoding_kind = DICTIONARY_V2) \<and> chunk_dict_len > 0 then
        (let st = \<lparr> local_dict = dictionary_start, dict_pos = 0, dict_len = chunk_dict_len \<rparr>;
             bs = bytestream_initbuf (bytestream_init mem addr strm_len buf)
         in dict_loop_lens (if IS_RLEv1 encoding_kind then rlev1_lengths run_data else rlev2)
              (bs, vals, st, global_dictionary))
      else Some [])"

section \<open>Column data: the row window\<close>

text \<open>
  \<^verbatim>\<open>orc_datadec_state_s\<close>. The counters are \<^verbatim>\<open>uint32_t\<close>, the entries of
  \<open>row_ofs_plus1\<close> are \<^verbatim>\<open>uint16_t\<close>.
\<close>

record orc_datadec_state_s =
  cur_row :: nat
  end_row :: nat
  max_vals :: nat
  nrows :: nat
  buffered_count :: nat
  buffered_pos :: nat
  row_ofs_plus1 :: "nat \<Rightarrow> u16"

text \<open>
  One pass of the loop of step 1 of \<^verbatim>\<open>gpuDecodeOrcColumnData\<close>, entered with
  \<open>max_vals < NTHREADS\<close>, \<open>cur_row + nrows < end_row\<close> and \<open>nrows < 0xfe00\<close>. The number of
  rows looked at:
\<close>

definition rw_nrows :: "orc_datadec_state_s \<Rightarrow> nat" where
  "rw_nrows s = min (end_row s - cur_row s) (min (0xfe00 - nrows s) NTHREADS)"

text \<open>
  With a PRESENT stream, lane \<open>t\<close> reads the bit of row
  \<^verbatim>\<open>r = (uint32_t)(cur_row + nrows + t - first_row)\<close> of the output bitmap
  (\<open>valid_map r\<close> is bit \<open>r & 7\<close> of byte \<open>r >> 3\<close>):
\<close>

definition rw_valid :: "(nat \<Rightarrow> bool) \<Rightarrow> nat \<Rightarrow> orc_datadec_state_s \<Rightarrow> nat \<Rightarrow> bool" where
  "rw_valid valid_map first_row s t =
     (let rmax = end_row s - min (u32 first_row) (end_row s);
          r = nat ((int (cur_row s + nrows s + t) - int first_row) mod 2 ^ 32)
      in t < rw_nrows s \<and> r < rmax \<and> valid_map r)"

text \<open>
  The lanes store their bit at \<^verbatim>\<open>row_ofs_plus1[max_vals + t]\<close> and
  \<^verbatim>\<open>lengths_to_positions<uint16_t>\<close> runs on these \<open>nrows\<close> slots: the array after it.
\<close>

definition rw_positions ::
  "(nat \<Rightarrow> bool) \<Rightarrow> nat \<Rightarrow> orc_datadec_state_s \<Rightarrow> (nat \<Rightarrow> u16) option" where
  "rw_positions valid_map first_row s =
     lengths_to_positions
       (\<lambda>t. if t < rw_nrows s \<and> t < NTHREADS then of_bool (rw_valid valid_map first_row s t)
            else row_ofs_plus1 s (max_vals s + t))
       (rw_nrows s)"

text \<open>\<^verbatim>\<open>nz_pos = (valid) ? row_ofs_plus1[t] : 0\<close> of lane \<open>t\<close>.\<close>

definition rw_nz_pos ::
  "(nat \<Rightarrow> bool) \<Rightarrow> nat \<Rightarrow> orc_datadec_state_s \<Rightarrow> (nat \<Rightarrow> nat) option" where
  "rw_nz_pos valid_map first_row s =
     (case rw_positions valid_map first_row s of
        None \<Rightarrow> None
      | Some rop \<Rightarrow> Some (\<lambda>t. if rw_valid valid_map first_row s t then unat (rop t) else 0))"

text \<open>
  The whole pass with a PRESENT stream: lane \<open>nrows - 1\<close> adds its position to
  \<open>max_vals\<close>, every valid lane writes \<^verbatim>\<open>row_ofs_plus1[nz_pos - 1] = nrows + t\<close> (only
  lanes below \<open>nrows\<close> are valid, and their slots differ), and lane 0 caps \<open>max_vals\<close>
  or advances \<open>nrows\<close>.
\<close>

definition row_window_present ::
  "(nat \<Rightarrow> bool) \<Rightarrow> nat \<Rightarrow> orc_datadec_state_s \<Rightarrow> orc_datadec_state_s option" where
  "row_window_present valid_map first_row s =
     (case rw_positions valid_map first_row s of
        None \<Rightarrow> None
      | Some rop \<Rightarrow>
          (let n = rw_nrows s;
               base = max_vals s;
               max_vals1 = u32 (base + unat (rop (n - 1)));
               arr1 = (\<lambda>j. if base \<le> j then rop (j - base) else row_ofs_plus1 s j);
               arr2 = fold (\<lambda>t a. if rw_valid valid_map first_row s t
                                    then a(base + (unat (rop t) - 1) := of_nat (nrows s + t))
                                    else a) [0..<n] arr1
           in Some (if max_vals1 > NTHREADS
                    then s\<lparr> max_vals := NTHREADS, nrows := unat (arr2 (NTHREADS - 1)),
                            row_ofs_plus1 := arr2 \<rparr>
                    else s\<lparr> max_vals := max_vals1, nrows := u32 (nrows s + n),
                            row_ofs_plus1 := arr2 \<rparr>)))"


section \<open>Column data: string descriptors\<close>

text \<open>
  The \<^verbatim>\<open>STRING\<close>/\<^verbatim>\<open>BINARY\<close>/\<^verbatim>\<open>VARCHAR\<close>/\<^verbatim>\<open>CHAR\<close> case of the output switch of
  \<^verbatim>\<open>gpuDecodeOrcColumnData\<close> for one lane. Pointers are addresses; \<open>strm_dictionary\<close>
  and \<open>strm_data\<close> are \<^verbatim>\<open>streams[CI_DICTIONARY]\<close> and \<^verbatim>\<open>streams[CI_DATA]\<close>, \<open>val\<close> is
  \<^verbatim>\<open>vals.u32[t]\<close> and \<open>val2\<close> is \<^verbatim>\<open>vals.u32[NTHREADS + t]\<close>. The local \<^verbatim>\<open>count\<close> is
  declared without a value and read, in the direct branch, before it is assigned:
  \<open>count0\<close> is the value it happens to hold. The result is the descriptor written
  and the indices of the global dictionary that were read.
\<close>

record nvstrdesc_s =
  str_ptr :: nat
  str_count :: u32

definition string_desc ::
  "ColumnEncodingKind \<Rightarrow> nat \<Rightarrow> nat \<Rightarrow> nat \<Rightarrow> nat \<Rightarrow> nat \<Rightarrow> (nat \<Rightarrow> DictionaryEntry) \<Rightarrow>
   u32 \<Rightarrow> u32 \<Rightarrow> u32 \<Rightarrow> nvstrdesc_s \<times> nat list" where
  "string_desc encoding_kind chunk_dict_len dictionary_start strm_dictionary strm_data strm_len_data
       global_dictionary val val2 count0 =
     (if IS_DICTIONARY encoding_kind then
        (let dict_idx = val in
         if unat dict_idx < chunk_dict_len
         then (\<lparr> str_ptr = strm_dictionary
                         + unat (ent_pos (global_dictionary (dictionary_start + unat dict_idx))),
                  str_count = ent_len (global_dictionary (dictionary_start + unat dict_idx)) \<rparr>,
               [dictionary_start + unat dict_idx])
         else (\<lparr> str_ptr = 0xdeadbeef, str_count = 0 \<rparr>, []))
      else
        (let dict_idx = of_nat dictionary_start + val2 - count0;
             count = val
         in if unat (dict_idx + count) > strm_len_data
            then (\<lparr> str_ptr = 0xdeadbeef, str_count = 0 \<rparr>, [])
            else (\<lparr> str_ptr = strm_data + unat dict_idx, str_count = count \<rparr>, [])))"

section \<open>Null decoding: storing validity bits\<close>

text \<open>
  \<^verbatim>\<open>rle8_read_u32\<close>: 32 bits of the \<^verbatim>\<open>u32\<close> view of the value array from bit
  \<open>bitpos\<close> on. \<^verbatim>\<open>__popc\<close> counts the set bits.
\<close>

definition rle8_read_u32 :: "(nat \<Rightarrow> u32) \<Rightarrow> nat \<Rightarrow> u32" where
  "rle8_read_u32 vals bitpos =
     funnelshift_r (vals (bitpos div 32)) (vals (bitpos div 32 + 1)) (bitpos mod 32)"

definition popc :: "u32 \<Rightarrow> nat" where
  "popc x = length (filter (bit x) [0..<32])"

text \<open>
  What lane \<open>t\<close> does to its word \<^verbatim>\<open>valid[t]\<close> (\<open>old\<close>) in the aligned part: a whole word
  is stored, a last partial word is merged under its mask; the new word and the nulls
  counted.
\<close>

definition nulls_lane_word :: "(nat \<Rightarrow> u32) \<Rightarrow> nat \<Rightarrow> nat \<Rightarrow> nat \<Rightarrow> u32 \<Rightarrow> u32 \<times> nat" where
  "nulls_lane_word vals startbit nbits t old =
     (if t * 32 + 32 \<le> nbits then
        (let bits = rle8_read_u32 vals (u32 (startbit + t * 32))
         in (bits, popc (NOT bits)))
      else if t * 32 < nbits then
        (let n = nbits - t * 32;
             mask = push_bit n 1 - 1;
             bits = rle8_read_u32 vals (u32 (startbit + t * 32)) AND mask
         in ((old AND NOT mask) OR bits, popc (NOT bits AND mask)))
      else (old, 0))"

text \<open>
  The stores of one batch once \<open>dst_pos\<close>, \<open>nbits\<close> and \<open>startbit\<close> are known: lane 0
  merges the bits up to the next word boundary when \<open>dst_pos\<close> is not aligned, then
  lane \<open>t\<close> handles word \<open>t\<close> of the rest. \<open>vmap\<close> holds the words of the bitmap from
  \<^verbatim>\<open>valid_map_base\<close> on; the second component is the sum of what the lanes add to
  their \<^verbatim>\<open>null_count\<close>.
\<close>

definition nulls_store_bits ::
  "nat \<Rightarrow> nat \<Rightarrow> nat \<Rightarrow> (nat \<Rightarrow> u32) \<Rightarrow> (nat \<Rightarrow> u32) \<Rightarrow> (nat \<Rightarrow> u32) \<times> nat" where
  "nulls_store_bits dst_pos nbits startbit vals vmap =
     (let w0 = dst_pos div 32;
          bitpos = u32 dst_pos mod 32;
          n = (if bitpos \<noteq> 0 then min (32 - bitpos) nbits else 0);
          mask = (push_bit bitpos (push_bit n 1 - 1) :: u32);
          bits = push_bit bitpos (rle8_read_u32 vals startbit) AND mask;
          vmap1 = (if bitpos \<noteq> 0 then vmap(w0 := (vmap w0 AND NOT mask) OR bits) else vmap);
          nc0 = (if bitpos \<noteq> 0 then popc (NOT bits AND mask) else 0);
          nbits1 = nbits - n;
          startbit1 = u32 (startbit + n);
          w1 = (if bitpos \<noteq> 0 then w0 + 1 else w0)
      in (\<lambda>w. if w1 \<le> w \<and> w - w1 < NTHREADS
               then fst (nulls_lane_word vals startbit1 nbits1 (w - w1) (vmap1 w))
               else vmap1 w,
          u32 (nc0 + (\<Sum>t<NTHREADS. snd (nulls_lane_word vals startbit1 nbits1 t (vmap1 (w1 + t)))))))"

text \<open>
  The window test and the geometry of one batch of \<open>batch_rows\<close> rows (\<^verbatim>\<open>nrows\<close>) starting at the
  absolute row \<open>row_in\<close>, for a chunk with a bitmap (\<^verbatim>\<open>valid_map_base != NULL\<close>).
  \<^verbatim>\<open>size_t\<close> is 64 bits wide; \<open>s64\<close> reads a 64-bit value as \<^verbatim>\<open>int64_t\<close>.
\<close>

definition u64 :: "nat \<Rightarrow> nat" where
  "u64 n = n mod 2 ^ 64"

definition s64 :: "int \<Rightarrow> int" where
  "s64 x = (x + 2 ^ 63) mod 2 ^ 64 - 2 ^ 63"

definition nulls_store ::
  "nat \<Rightarrow> nat \<Rightarrow> nat \<Rightarrow> nat \<Rightarrow> (nat \<Rightarrow> u32) \<Rightarrow> (nat \<Rightarrow> u32) \<Rightarrow> (nat \<Rightarrow> u32) \<times> nat" where
  "nulls_store row_in batch_rows first_row max_num_rows vals vmap =
     (if u64 (row_in + batch_rows) > first_row \<and> row_in < u64 (first_row + max_num_rows) then
        (let dst_row = s64 (int row_in - int first_row);
             dst_pos = max dst_row 0;
             startbit = nat ((- min dst_row 0) mod 2 ^ 32);
             nbits = batch_rows - min startbit batch_rows;
             nbits = (if u64 (nat dst_pos + nbits) > max_num_rows
                      then u32 (max_num_rows - min (nat dst_pos) max_num_rows) else nbits)
         in nulls_store_bits (nat dst_pos) nbits startbit vals vmap)
      else (vmap, 0))"

text \<open>
  Bit \<open>j\<close> of the value array as the store reads it through \<^verbatim>\<open>rle8_read_u32\<close> (bit \<open>j mod 32\<close> of
  word \<open>j div 32\<close>, the least significant bit first), and bit \<open>p\<close> of the bitmap.  This is the
  numbering of the store, not the numbering of the rows in the bytes of the PRESENT stream.
\<close>

definition src_bit :: "(nat \<Rightarrow> u32) \<Rightarrow> nat \<Rightarrow> bool" where
  "src_bit vals j = bit (vals (j div 32)) (j mod 32)"

definition map_bit :: "(nat \<Rightarrow> u32) \<Rightarrow> nat \<Rightarrow> bool" where
  "map_bit vmap p = bit (vmap (p div 32)) (p mod 32)"

subsection \<open>Counting the valid rows below the first output row\<close>

text \<open>
  The fields of a chunk descriptor (\<^verbatim>\<open>ColumnDesc\<close>) that the two kernels exchange.  Each kernel
  copies \<^verbatim>\<open>chunks[chunk_id]\<close> into its shared memory (\<^verbatim>\<open>s->chunk\<close>) when it starts.
\<close>

record ColumnDesc =
  start_row :: nat
  num_rows :: nat
  null_count :: nat
  skip_count :: nat

text \<open>
  \<^verbatim>\<open>SHFL_XOR(v, m)\<close> in lane \<open>t\<close> of a warp reads the value of \<open>v\<close> in lane \<open>t XOR m\<close>;
  \<open>warp_sum\<close> is the sequence of five additions with the masks 1, 2, 4, 8, 16.
\<close>

definition SHFL_XOR :: "(nat \<Rightarrow> u32) \<Rightarrow> nat \<Rightarrow> nat \<Rightarrow> u32" where
  "SHFL_XOR v m t = v (t XOR m)"

definition warp_sum :: "(nat \<Rightarrow> u32) \<Rightarrow> (nat \<Rightarrow> u32)" where
  "warp_sum v = fold (\<lambda>m v t. v t + SHFL_XOR v m t) [1, 2, 4, 8, 16] v"

text \<open>
  The loop of a lane over the words of validity bits below \<^verbatim>\<open>first_row\<close>.  The loop variable
  starts at 0 and advances by 32 in every lane: the lane number does not occur in the loop.
\<close>

partial_function (option) skip_loop :: "(nat \<Rightarrow> u32) \<Rightarrow> nat \<Rightarrow> nat \<times> u32 \<Rightarrow> u32 option" where
  "skip_loop vals skippedrows st =
     (case st of (i, cnt) \<Rightarrow>
        if i < skippedrows then
          (let bits = vals (i div 32);
               bits = (if u32 (i + 32) > skippedrows
                       then bits AND (push_bit (skippedrows - i) 1 - 1) else bits)
           in skip_loop vals skippedrows (u32 (i + 32), cnt + of_nat (popc bits)))
        else Some cnt)"

declare skip_loop.simps [code]

text \<open>
  The block \<^verbatim>\<open>if (row_in < first_row && t < 32)\<close> for one batch of \<open>batch_rows\<close> rows that starts at
  the absolute row \<open>row_in\<close>: the 32 lanes of the first warp run the loop, the warp adds the 32
  results, and lane 0 adds the sum to the field of the copy \<^verbatim>\<open>s->chunk\<close> in shared memory.
\<close>

definition nulls_skip ::
  "nat \<Rightarrow> nat \<Rightarrow> nat \<Rightarrow> (nat \<Rightarrow> u32) \<Rightarrow> ColumnDesc \<Rightarrow> ColumnDesc option" where
  "nulls_skip row_in batch_rows first_row vals s_chunk =
     (if row_in < first_row then
        (let skippedrows = min (u32 (first_row - row_in)) batch_rows
         in case skip_loop vals skippedrows (0, 0) of
              None \<Rightarrow> None
            | Some c \<Rightarrow>
                Some (s_chunk\<lparr>skip_count := u32 (skip_count s_chunk + unat (warp_sum (\<lambda>t. c) 0))\<rparr>))
      else Some s_chunk)"

text \<open>
  The loop of the kernel over the batches of a chunk; \<open>nulls_batch\<close> is its body.  The decoding of a batch (lines 887 to 904:
  \<^verbatim>\<open>Byte_RLE\<close> for a chunk with a PRESENT stream, all rows valid otherwise) is the parameter
  \<open>decode\<close>, from the row \<^verbatim>\<open>s->top.nulls.row\<close> and \<^verbatim>\<open>nrows_max\<close> to the words \<^verbatim>\<open>s->vals.u32\<close> and
  \<^verbatim>\<open>nrows\<close>.  The state is \<^verbatim>\<open>s->top.nulls.row\<close>, \<^verbatim>\<open>s->chunk\<close>, the bitmap and the count of nulls.
\<close>

definition nulls_batch ::
  "(nat \<Rightarrow> nat \<Rightarrow> (nat \<Rightarrow> u32) \<times> nat) \<Rightarrow> nat \<Rightarrow> nat \<Rightarrow>
   nat \<times> ColumnDesc \<times> (nat \<Rightarrow> u32) \<times> nat \<Rightarrow> (nat \<times> ColumnDesc \<times> (nat \<Rightarrow> u32) \<times> nat) option" where
  "nulls_batch decode first_row max_num_rows st =
     (case st of (row, s_chunk, vmap, cnt) \<Rightarrow>
        (let nrows_max = min (num_rows s_chunk - row) (NTHREADS * 32);
             vals = fst (decode row nrows_max);
             batch_rows = snd (decode row nrows_max);
             row_in = start_row s_chunk + row;
             stored = nulls_store row_in batch_rows first_row max_num_rows vals vmap
         in case nulls_skip row_in batch_rows first_row vals s_chunk of
              None \<Rightarrow> None
            | Some s_chunk' \<Rightarrow>
                Some (row + batch_rows, s_chunk', fst stored, u32 (cnt + snd stored))))"

partial_function (option) nulls_loop ::
  "(nat \<Rightarrow> nat \<Rightarrow> (nat \<Rightarrow> u32) \<times> nat) \<Rightarrow> nat \<Rightarrow> nat \<Rightarrow>
   nat \<times> ColumnDesc \<times> (nat \<Rightarrow> u32) \<times> nat \<Rightarrow> (ColumnDesc \<times> (nat \<Rightarrow> u32) \<times> nat) option" where
  "nulls_loop decode first_row max_num_rows st =
     (if fst st < num_rows (fst (snd st)) then
        (case nulls_batch decode first_row max_num_rows st of
           None \<Rightarrow> None
         | Some st' \<Rightarrow> nulls_loop decode first_row max_num_rows st')
      else Some (snd st))"

declare nulls_loop.simps [code]

text \<open>A chunk without a PRESENT stream: all rows are valid (\<^verbatim>\<open>s->vals.u32[t] = ~0\<close>).\<close>

definition no_present :: "nat \<Rightarrow> nat \<Rightarrow> (nat \<Rightarrow> u32) \<times> nat" where
  "no_present row nrows_max = (\<lambda>t. - 1, nrows_max)"

text \<open>
  The null-decoding branch of \<^verbatim>\<open>gpuDecodeNullsAndStringDictionaries\<close> for the chunk \<open>chunk_id\<close>:
  the descriptor is copied to shared memory, the loop runs on the copy, and at the end the only
  field written to \<^verbatim>\<open>chunks[chunk_id]\<close> is \<^verbatim>\<open>null_count\<close>.  The result is the array of descriptors,
  the copy in shared memory when the kernel ends, and the bitmap.
\<close>

definition gpuDecodeNulls ::
  "(nat \<Rightarrow> ColumnDesc) \<Rightarrow> nat \<Rightarrow> (nat \<Rightarrow> nat \<Rightarrow> (nat \<Rightarrow> u32) \<times> nat) \<Rightarrow> nat \<Rightarrow> nat \<Rightarrow>
   (nat \<Rightarrow> u32) \<Rightarrow> ((nat \<Rightarrow> ColumnDesc) \<times> ColumnDesc \<times> (nat \<Rightarrow> u32)) option" where
  "gpuDecodeNulls chunks chunk_id decode first_row max_num_rows vmap =
     (case nulls_loop decode first_row max_num_rows (0, chunks chunk_id, vmap, 0) of
        None \<Rightarrow> None
      | Some r \<Rightarrow>
          Some (chunks(chunk_id := (chunks chunk_id)\<lparr>null_count := snd (snd r)\<rparr>),
                fst r, fst (snd r)))"

text \<open>
  \<^verbatim>\<open>gpuDecodeOrcColumnData\<close> copies \<^verbatim>\<open>chunks[chunk_id]\<close> to its own shared memory and starts its
  first batch with \<^verbatim>\<open>max_vals = min(s->chunk.skip_count, NTHREADS)\<close> slots of skipped values.
\<close>

definition data_first_max_vals :: "(nat \<Rightarrow> ColumnDesc) \<Rightarrow> nat \<Rightarrow> nat" where
  "data_first_max_vals chunks chunk_id = min (skip_count (chunks chunk_id)) NTHREADS"

section \<open>Byte RLE and the PRESENT stream\<close>

text \<open>
  \<^verbatim>\<open>Byte_RLE\<close>.  The scan of lane 0, on the state \<open>(numvals, numruns, lastpos, rle)\<close>: every pass
  records the position and the first slot of a run, and the \<^verbatim>\<open>break\<close> leaves the pass before
  the run is counted.  The loop ends after at most \<open>NWARPS\<close> runs.
\<close>

record orc_byterle_state_s =
  runs_loc :: "nat \<Rightarrow> nat"
  runs_pos :: "nat \<Rightarrow> nat"

function byterle_scan ::
  "orc_bytestream_s \<Rightarrow> nat \<Rightarrow> nat \<Rightarrow> nat \<times> nat \<times> nat \<times> orc_byterle_state_s \<Rightarrow>
   nat \<times> nat \<times> nat \<times> orc_byterle_state_s" where
  "byterle_scan bs maxvals maxpos (numvals, numruns, lastpos, rle) =
     (if numvals < maxvals \<and> numruns < NWARPS then
        (let rle' = rle\<lparr>runs_pos := (runs_pos rle)(numruns := lastpos),
                        runs_loc := (runs_loc rle)(numruns := numvals)\<rparr>;
             c = unat (bytestream_readbyte bs lastpos);
             p1 = u32 (lastpos + 1);
             n = (if c \<le> 0x7f then c + 3 else 0x100 - c);
             p2 = (if c \<le> 0x7f then u32 (p1 + 1) else u32 (p1 + n))
         in if p2 > maxpos \<or> u32 (numvals + n) > maxvals then (numvals, numruns, lastpos, rle')
            else byterle_scan bs maxvals maxpos (u32 (numvals + n), numruns + 1, p2, rle'))
      else (numvals, numruns, lastpos, rle))"
  by pat_completeness auto
termination
  by (relation "measure (\<lambda>(bs, maxvals, maxpos, numvals, numruns, lastpos, rle). NWARPS - numruns)") auto

declare byterle_scan.simps [simp del]

text \<open>
  The warp of run \<open>run\<close> (there are at most \<open>NWARPS\<close> runs, one for each warp): slot \<open>loc + i\<close>,
  \<open>i < n\<close>, receives the byte at \<^verbatim>\<open>pos + (i & literal_mask)\<close>, the byte after the control byte
  for a run and the \<open>i\<close>-th byte after it for literals.  The slots of different runs differ.
\<close>

definition byterle_run :: "orc_bytestream_s \<Rightarrow> nat \<Rightarrow> nat \<Rightarrow> (nat \<Rightarrow> u8) \<Rightarrow> (nat \<Rightarrow> u8)" where
  "byterle_run bs pos0 loc vals =
     (let c = unat (bytestream_readbyte bs pos0);
          pos = u32 (pos0 + 1);
          n = (if c \<le> 0x7f then c + 3 else 0x100 - c)
      in (\<lambda>j. if loc \<le> j \<and> j - loc < n
               then bytestream_readbyte bs (if c \<le> 0x7f then pos else u32 (pos + (j - loc)))
               else vals j))"

text \<open>The whole call: the count returned, the value array and the stream after the refill.\<close>

definition Byte_RLE ::
  "orc_bytestream_s \<Rightarrow> orc_byterle_state_s \<Rightarrow> (nat \<Rightarrow> u8) \<Rightarrow> nat \<Rightarrow> nat \<times> (nat \<Rightarrow> u8) \<times> orc_bytestream_s" where
  "Byte_RLE bs rle vals maxvals =
     (let maxpos = min (bs_len bs) (u32 (bs_pos bs + (BYTESTREAM_BFRSZ - 8)));
          scan = byterle_scan bs maxvals maxpos (0, 0, bs_pos bs, rle);
          numvals = fst scan;
          numruns = fst (snd scan);
          lastpos = fst (snd (snd scan));
          rle' = snd (snd (snd scan));
          flushed = bytestream_flush_bytes bs (u32 (lastpos + 2 ^ 32 - bs_pos bs));
          bs1 = fst flushed;
          vals1 = fold (\<lambda>run. byterle_run bs1 (runs_pos rle' run) (runs_loc rle' run)) [0..<numruns] vals;
          bs2 = bytestream_fill bs1 (bs_pos bs) (snd flushed)
      in (numvals, vals1, bs2))"

text \<open>
  \<^verbatim>\<open>s->vals\<close> is a union: word \<open>k\<close> of \<^verbatim>\<open>vals.u32\<close> is the four bytes \<open>4k .. 4k+3\<close> of
  \<^verbatim>\<open>vals.u8\<close>, least significant first.
\<close>

definition vals_u32 :: "(nat \<Rightarrow> u8) \<Rightarrow> nat \<Rightarrow> u32" where
  "vals_u32 vals k =
     ucast (vals (4 * k)) OR push_bit 8 (ucast (vals (4 * k + 1)))
     OR push_bit 16 (ucast (vals (4 * k + 2))) OR push_bit 24 (ucast (vals (4 * k + 3)))"

text \<open>
  The decoding of a batch of a chunk with a PRESENT stream (lines 887 to 900): \<^verbatim>\<open>Byte_RLE\<close> is
  asked for \<^verbatim>\<open>(nrows_max + 7) >> 3\<close> bytes, and a call that returns none makes all the rows of
  the batch null.  The result is the value array, \<^verbatim>\<open>nrows\<close> and the stream.
\<close>

definition present_batch ::
  "orc_bytestream_s \<Rightarrow> orc_byterle_state_s \<Rightarrow> (nat \<Rightarrow> u8) \<Rightarrow> nat \<Rightarrow> (nat \<Rightarrow> u8) \<times> nat \<times> orc_bytestream_s" where
  "present_batch bs rle vals nrows_max =
     (let r = Byte_RLE bs rle vals (u32 (nrows_max + 7) div 8);
          nbytes = fst r;
          vals1 = fst (snd r);
          bs1 = snd (snd r);
          nrows1 = min nrows_max (u32 (nbytes * 8))
      in if nrows1 = 0
         then ((\<lambda>j. if j div 4 < NTHREADS \<and> (j div 4) * 32 < nrows_max then 0 else vals1 j), nrows_max, bs1)
         else (vals1, nrows1, bs1))"

text \<open>
  The first pass of the loop over the batches for a chunk whose PRESENT stream is the byte list
  \<open>xs\<close>, as the parameter \<open>decode\<close> of \<open>nulls_loop\<close>: the stream is initialised and its buffer
  filled, and the batch is decoded into a value array of zeros.  For a chunk whose rows all
  come with the first call of \<^verbatim>\<open>Byte_RLE\<close> the loop has this one pass.
\<close>

definition present_decode :: "u8 list \<Rightarrow> nat \<Rightarrow> nat \<Rightarrow> (nat \<Rightarrow> u32) \<times> nat" where
  "present_decode xs row nrows_max =
     (let r = present_batch (stream_of xs) \<lparr>runs_loc = (\<lambda>_. 0), runs_pos = (\<lambda>_. 0)\<rparr> (\<lambda>_. 0) nrows_max
      in (vals_u32 (fst r), fst (snd r)))"

text \<open>
  The rows of a byte of boolean RLE data are numbered from its most significant bit: the
  switch of \<^verbatim>\<open>gpuDecodeOrcColumnData\<close> reads row \<open>t\<close> of a BOOLEAN column from the output of
  \<^verbatim>\<open>Byte_RLE\<close> as \<^verbatim>\<open>(vals.u8[t >> 3] >> ((~t) & 7)) & 1\<close>.
\<close>

definition bool_row :: "(nat \<Rightarrow> u8) \<Rightarrow> nat \<Rightarrow> bool" where
  "bool_row vals t = bit (vals (t div 8)) (7 - t mod 8)"

section \<open>Integer RLE version 2: delta runs\<close>

text \<open>
  The warp that processes one run of \<^verbatim>\<open>Integer_RLEv2<T>\<close>, for \<^verbatim>\<open>sizeof(T) <= 4\<close> and a run
  in delta mode (\<^verbatim>\<open>mode == 3\<close>); the other three modes are not part of this development.  The
  run starts at the stream position \<open>pos0\<close> (\<^verbatim>\<open>vals[base]\<close>, as the scan of lane 0 left it) and
  its values go to the slots \<open>base .. base + n - 1\<close> of \<^verbatim>\<open>vals\<close>.
\<close>

definition kRLEv2_W :: "nat \<Rightarrow> nat" where
  "kRLEv2_W c =
     [1, 2, 3, 4, 5, 6, 7, 8, 9, 10, 11, 12, 13, 14, 15, 16,
      17, 18, 19, 20, 21, 22, 23, 24, 26, 28, 30, 32, 40, 48, 56, 64] ! c"

text \<open>\<^verbatim>\<open>__byte_perm(x, 0, 0x0123)\<close>: the four bytes of \<open>x\<close> in reverse order.\<close>

definition byte_perm_0123 :: "u32 \<Rightarrow> u32" where
  "byte_perm_0123 x =
     push_bit 24 (x AND 0xff) OR push_bit 16 (drop_bit 8 x AND 0xff)
     OR push_bit 8 (drop_bit 16 x AND 0xff) OR drop_bit 24 x"

text \<open>
  \<^verbatim>\<open>bytestream_readbits\<close>: \<open>numbits\<close> bits from the bit position \<open>bitpos\<close>, most significant bit
  first.  The shift count \<^verbatim>\<open>32 - numbits\<close> is a \<^verbatim>\<open>uint32_t\<close>.
\<close>

definition bytestream_readbits :: "orc_bytestream_s \<Rightarrow> nat \<Rightarrow> nat \<Rightarrow> u32" where
  "bytestream_readbits bs bitpos numbits =
     (let a = byte_perm_0123 (buf_u32 bs ((bitpos AND ((BYTESTREAM_BFRSZ - 1) * 8)) div 32));
          b = byte_perm_0123 (buf_u32 bs (((bitpos + 32) AND ((BYTESTREAM_BFRSZ - 1) * 8)) div 32))
      in drop_bit (nat ((32 - int numbits) mod 2 ^ 32)) (funnelshift_l b a (bitpos mod 32)))"

text \<open>The header of a run, read by the first lane of the warp: mode, bit width and length.\<close>

definition rlev2_mode :: "orc_bytestream_s \<Rightarrow> nat \<Rightarrow> nat" where
  "rlev2_mode bs pos0 = unat (bytestream_readbyte bs pos0) div 64"

definition rlev2_w :: "orc_bytestream_s \<Rightarrow> nat \<Rightarrow> nat" where
  "rlev2_w bs pos0 = kRLEv2_W ((unat (bytestream_readbyte bs pos0) div 2) mod 32)"

definition rlev2_n :: "orc_bytestream_s \<Rightarrow> nat \<Rightarrow> nat" where
  "rlev2_n bs pos0 =
     1 + (unat (bytestream_readbyte bs pos0) mod 2) * 256 + unat (bytestream_readbyte bs (pos0 + 1))"

text \<open>
  The two varints of a delta run.  Both calls bind the template \<^verbatim>\<open>decode_varint<T>\<close> of line
  302: the first names it (\<^verbatim>\<open>decode_varint<T>(bs, pos, baseval)\<close>), and the argument of the
  second, \<^verbatim>\<open>rle->delta.i32[r]\<close>, is an lvalue of type \<^verbatim>\<open>volatile int32_t\<close>, to which the
  parameter \<^verbatim>\<open>int32_t &\<close> of the signed overload does not bind.  So neither value goes through
  the zig-zag step.  The result is the position after the varints, \<^verbatim>\<open>rle->baseval.u32[r]\<close> and
  \<^verbatim>\<open>rle->delta.i32[r]\<close>.
\<close>

definition rlev2_delta_hdr :: "orc_bytestream_s \<Rightarrow> nat \<Rightarrow> nat \<times> u32 \<times> u32" where
  "rlev2_delta_hdr bs pos0 =
     (let r1 = decode_varint_u32 bs (pos0 + 2);
          r2 = decode_varint_u32 bs (fst r1)
      in (fst r2, snd r1, snd r2))"

text \<open>\<^verbatim>\<open>abs\<close> on \<^verbatim>\<open>int32_t\<close>, in two's complement.\<close>

definition abs32 :: "u32 \<Rightarrow> u32" where
  "abs32 x = (if x <s 0 then - x else x)"

text \<open>The value that lane \<open>i mod 32\<close> stores in slot \<open>i\<close> of the run before the summation.\<close>

definition rlev2_delta_ofs :: "orc_bytestream_s \<Rightarrow> nat \<Rightarrow> nat \<Rightarrow> u32 \<Rightarrow> nat \<Rightarrow> u32" where
  "rlev2_delta_ofs bs pos w delta i =
     (let ofs = (if i \<ge> 2 then (if w > 1 then bytestream_readbits bs (pos * 8 + (i - 2) * w) w else 0)
                 else if i = 1 then abs32 delta else 0)
      in if delta <s 0 then - ofs else ofs)"

text \<open>
  The run: the slots are filled, summed in place by the levels \<^verbatim>\<open>for (i = 1; i < n; i <<= 1)\<close>
  (the levels of \<^verbatim>\<open>lengths_to_positions\<close>, on the slots of the run: slot \<open>j\<close> with \<^verbatim>\<open>j & i\<close> adds
  the slot \<^verbatim>\<open>(j & ~i) | (i - 1)\<close>; a run has at most 512 slots), and the base value is added to
  each.
\<close>

definition rlev2_delta_run ::
  "orc_bytestream_s \<Rightarrow> nat \<Rightarrow> nat \<Rightarrow> (nat \<Rightarrow> u32) \<Rightarrow> (nat \<Rightarrow> u32) option" where
  "rlev2_delta_run bs pos0 base vals =
     (let w = rlev2_w bs pos0;
          n = rlev2_n bs pos0;
          hdr = rlev2_delta_hdr bs pos0;
          pos = fst hdr;
          baseval = fst (snd hdr);
          delta = snd (snd hdr);
          vals1 = (\<lambda>x. if base \<le> x \<and> x < base + n
                       then rlev2_delta_ofs bs pos w delta (x - base) else vals x)
      in if rlev2_mode bs pos0 \<noteq> 3 then None
         else case l2p_loop 1 n (\<lambda>j. vals1 (base + j)) of
                None \<Rightarrow> None
              | Some sums \<Rightarrow>
                  Some (\<lambda>x. if base \<le> x \<and> x < base + n then sums (x - base) + baseval else vals x))"

text \<open>
  The scan of lane 0, \<^verbatim>\<open>while (numvals < maxvals)\<close>, on the state
  \<open>(numvals, numruns, lastpos, vals, runs_loc)\<close>: every pass records the first slot of a run in
  \<^verbatim>\<open>runs_loc\<close> (\<^verbatim>\<open>uint16_t\<close>) and its stream position in \<^verbatim>\<open>vals[numvals]\<close>, and measures the
  run, \<open>n\<close> values in \<open>l\<close> bytes after the header.  For a run in delta mode \<open>l\<close> is the length
  of the two varints plus \<^verbatim>\<open>(w * n + 7) >> 3\<close> bytes when \<open>w > 1\<close>.  A \<^verbatim>\<open>break\<close> returns the state
  as it is at that point.
\<close>

partial_function (option) rlev2_scan ::
  "bool \<Rightarrow> orc_bytestream_s \<Rightarrow> nat \<Rightarrow> nat \<Rightarrow>
   nat \<times> nat \<times> nat \<times> (nat \<Rightarrow> u32) \<times> (nat \<Rightarrow> nat) \<Rightarrow>
   (nat \<times> nat \<times> nat \<times> (nat \<Rightarrow> u32) \<times> (nat \<Rightarrow> nat)) option" where
  "rlev2_scan wide bs maxvals maxpos st =
     (case st of (numvals, numruns, lastpos, vals, rloc) \<Rightarrow>
      if numvals < maxvals then
        (let byte0 = unat (bytestream_readbyte bs lastpos);
             p1 = u32 (lastpos + 1);
             mode = byte0 div 64;
             rloc' = rloc(numruns := numvals mod 65536);
             vals' = vals(numvals := of_nat lastpos);
             w = kRLEv2_W ((byte0 div 2) mod 32);
             n = (if mode = 0 then 3 + byte0 mod 8
                  else 1 + (byte0 mod 2) * 256 + unat (bytestream_readbyte bs p1));
             pos = (if mode = 0 then p1 else if mode = 2 then u32 (p1 + 3) else u32 (p1 + 1));
             byte2 = unat (bytestream_readbyte bs (u32 (p1 + 1)));
             byte3 = unat (bytestream_readbyte bs (u32 (p1 + 2)));
             deltapos = varint_length wide bs pos;
             deltapos2 = u32 (deltapos + varint_length wide bs (u32 (pos + deltapos)));
             l = (if mode = 0 then 1 + (byte0 div 8) mod 8
                  else if mode = 1 then u32 (w * n + 7) div 8
                  else if mode = 2 then
                    u32 (u32 (u32 (w * n + 7) div 8 + (1 + byte2 div 32))
                         + u32 ((byte3 mod 32) * ((1 + byte3 div 32) + kRLEv2_W (byte2 mod 32)) + 7) div 8)
                  else u32 ((if w > 1 then u32 (w * n + 7) div 8 else 0) + deltapos2))
         in if u32 (numvals + n) > maxvals then Some (numvals, numruns, lastpos, vals', rloc')
            else if u32 (pos + l) > maxpos then Some (numvals, numruns, lastpos, vals', rloc')
            else rlev2_scan wide bs maxvals maxpos
                   (u32 (numvals + n), numruns + 1, u32 (pos + l), vals', rloc'))
      else Some st)"

declare rlev2_scan.simps [code]

text \<open>
  The whole call of \<^verbatim>\<open>Integer_RLEv2<uint32_t>\<close> for a stream whose runs are all in delta mode
  (the result is \<open>None\<close> when the scan finds a run in another mode): the scan, the flush, the
  runs, each processed by a warp (the slots of different runs differ), and the refill.  The
  result is the count returned, the value array and the stream.
\<close>

definition Integer_RLEv2_u32 ::
  "orc_bytestream_s \<Rightarrow> (nat \<Rightarrow> nat) \<Rightarrow> (nat \<Rightarrow> u32) \<Rightarrow> nat \<Rightarrow> (nat \<times> (nat \<Rightarrow> u32) \<times> orc_bytestream_s) option" where
  "Integer_RLEv2_u32 bs rloc0 vals0 maxvals =
     (let maxpos = min (bs_len bs) (u32 (bs_pos bs + (BYTESTREAM_BFRSZ - 8)))
      in case rlev2_scan False bs maxvals maxpos (0, 0, bs_pos bs, vals0, rloc0) of
           None \<Rightarrow> None
         | Some (numvals, numruns, lastpos, vals, rloc) \<Rightarrow>
             (let flushed = bytestream_flush_bytes bs (u32 (lastpos + 2 ^ 32 - bs_pos bs));
                  bs1 = fst flushed
              in case fold (\<lambda>run r. Option.bind r (\<lambda>v. rlev2_delta_run bs1 (unat (v (rloc run))) (rloc run) v))
                        [0..<numruns] (Some vals) of
                   None \<Rightarrow> None
                 | Some vals1 \<Rightarrow> Some (numvals, vals1, bytestream_fill bs1 (bs_pos bs) (snd flushed))))"

text \<open>The decoded values of a call, as a list.\<close>

definition rlev2_values ::
  "(nat \<times> (nat \<Rightarrow> u32) \<times> orc_bytestream_s) option \<Rightarrow> (nat \<times> u32 list) option" where
  "rlev2_values r = (case r of None \<Rightarrow> None
                     | Some (numvals, vals, _) \<Rightarrow> Some (numvals, map vals [0..<numvals]))"

section \<open>Column data: one batch of the loop over a chunk\<close>

text \<open>
  Modelled from the spec: the kinds of column that \<^verbatim>\<open>gpuDecodeOrcColumnData\<close> tells apart (the
  enumeration is declared in a header that is not part of the source at hand); \<open>OTHER\<close> stands
  for every kind that the kernel does not name, and \<open>INT_kind\<close> and \<open>CHAR_kind\<close> for \<^verbatim>\<open>INT\<close> and
  \<^verbatim>\<open>CHAR\<close>.
\<close>

datatype TypeKind =
  BOOLEAN | BYTE | SHORT | INT_kind | LONG | FLOAT | DOUBLE | STRING | BINARY | TIMESTAMP
  | DECIMAL | DATE | VARCHAR | CHAR_kind | OTHER







section \<open>Verified properties\<close>

subsection \<open>Reading a stream laid out from a byte list\<close>

lemma stream_of_pos [simp]: "bs_pos (stream_of xs) = 0"
  by (simp add: stream_of_def bytestream_initbuf_def bytestream_fill_def bytestream_init_def Let_def)

lemma stream_of_len: "bs_len (stream_of xs) = u32 (length xs + 7) div 8 * 8"
  by (simp add: stream_of_def bytestream_initbuf_def bytestream_fill_def bytestream_init_def Let_def)

lemma stream_of_buf:
  "bs_buf (stream_of xs) j =
     (if j < BYTESTREAM_BFRSZ \<and> j < u32 (length xs + 7) div 8 * 8 then bytes_mem xs j else 0)"
proof -
  have slot: "(j div 8 + 1024) mod 1024 = j div 8" if "j < 8192"
    using that by simp
  have lane: "j div 8 < min (min (u32 (length xs + 7) div 8 * 8) 8192 div 8) 1024
      \<longleftrightarrow> j < u32 (length xs + 7) div 8 * 8" if "j < 8192"
    using that by (auto simp: min_def)
  show ?thesis
    by (auto simp add: stream_of_def bytestream_initbuf_def bytestream_fill_def bytestream_init_def
      Let_def BYTESTREAM_BFRSZ_def NTHREADS_def slot lane simp del: mult_div_mod_eq)
qed

lemma stream_of_readbyte:
  assumes "length xs \<le> 8192"
  shows "bytestream_readbyte (stream_of xs) p = bytes_mem xs (p mod 8192)"
proof -
  have "length xs \<le> u32 (length xs + 7) div 8 * 8"
    using assms by (simp add: u32_def)
  then show ?thesis
    by (auto simp: bytestream_readbyte_def stream_of_buf BYTESTREAM_BFRSZ_def bytes_mem_def)
qed

lemma stream_of_buf_u32:
  assumes "length xs \<le> 8192" "k < 2048"
  shows "buf_u32 (stream_of xs) k =
     ucast (bytes_mem xs (4 * k)) OR push_bit 8 (ucast (bytes_mem xs (4 * k + 1)))
     OR push_bit 16 (ucast (bytes_mem xs (4 * k + 2))) OR push_bit 24 (ucast (bytes_mem xs (4 * k + 3)))"
proof -
  have "length xs \<le> u32 (length xs + 7) div 8 * 8"
    using assms by (simp add: u32_def)
  then show ?thesis using assms
    by (auto simp: buf_u32_def stream_of_buf BYTESTREAM_BFRSZ_def bytes_mem_def)
qed

lemma readbyte_pos_upd [simp]:
  "bytestream_readbyte (bs\<lparr>bs_pos := q\<rparr>) p = bytestream_readbyte bs p"
  by (simp add: bytestream_readbyte_def)

subsection \<open>Varints\<close>

lemma encode_varint_2_32: "encode_varint (2 ^ 32) = [0x80, 0x80, 0x80, 0x80, 0x10]"
  by simp

lemma readbyte_varint_2_32:
  "bytestream_readbyte (stream_of [0x80, 0x80, 0x80, 0x80, 0x10]) p
     = bytes_mem [0x80, 0x80, 0x80, 0x80, 0x10] (p mod 8192)"
  by (rule stream_of_readbyte) simp

text \<open>
  C6. The claim: decoding the canonical base-128 varint of any 32-bit or 64-bit value
  gives the value back. The 64-bit decoder enters its upper-half branch only when the
  fifth byte has its continuation bit set, so for a value whose varint is exactly five
  bytes long the bits 32 to 34 held in the fifth byte are shifted out of the 32-bit
  accumulator: the varint of \<open>2 ^ 32\<close>, the bytes \<open>80 80 80 80 10\<close>, decodes to 0.
\<close>

theorem decode_varint_u64_drops_bit32:
  "decode_varint_u64 (stream_of (encode_varint (2 ^ 32))) 0 = (5, 0)"
  unfolding encode_varint_2_32
  by (simp add: decode_varint_u64_def decode_varint_def readbyte_varint_2_32 bytes_mem_def)

subsection \<open>Integer RLE version 1\<close>

lemma rlev1_literals_2:
  "rlev1_literals w bs 2 k p v =
     (let p' = u32 (p + varint_length w bs p)
      in (u32 (p' + varint_length w bs p'),
          v(k := of_nat (p mod 65536), Suc k := of_nat (p' mod 65536))))"
  by (simp add: numeral_2_eq_2 Let_def)

lemma ffs_0x80808000: "ffs 0x80808000 = 16"
  by (simp add: ffs_def upt_rec[of _ "numeral _"])

text \<open>The stream \<open>FE 80 01 05\<close>: a block of two literals, 128 and 5.\<close>

lemma lit_readbyte:
  "bytestream_readbyte (stream_of [0xfe, 0x80, 0x01, 0x05]) p
     = bytes_mem [0xfe, 0x80, 0x01, 0x05] (p mod 8192)"
  by (rule stream_of_readbyte) simp

lemma lit_buf_u32:
  "k < 2048 \<Longrightarrow> buf_u32 (stream_of [0xfe, 0x80, 0x01, 0x05]) k =
     ucast (bytes_mem [0xfe, 0x80, 0x01, 0x05] (4 * k))
     OR push_bit 8 (ucast (bytes_mem [0xfe, 0x80, 0x01, 0x05] (4 * k + 1)))
     OR push_bit 16 (ucast (bytes_mem [0xfe, 0x80, 0x01, 0x05] (4 * k + 2)))
     OR push_bit 24 (ucast (bytes_mem [0xfe, 0x80, 0x01, 0x05] (4 * k + 3)))"
  by (rule stream_of_buf_u32) simp_all

lemma lit_readu32_1:
  "p = 1 \<Longrightarrow> bytestream_readu32 (stream_of [0xfe, 0x80, 0x01, 0x05]) p = 0x00050180"
  by (simp add: bytestream_readu32_def lit_buf_u32 bytes_mem_def funnelshift_r_def
      BYTESTREAM_BFRSZ_def Let_def)

text \<open>The two-byte varint \<open>80 01\<close> at position 1 is measured as three bytes.\<close>

lemma lit_varint_length_1:
  "p = 1 \<Longrightarrow> varint_length False (stream_of [0xfe, 0x80, 0x01, 0x05]) p = 3"
  by (simp add: varint_length_def lit_readbyte bytes_mem_def lit_readu32_1 ffs_0x80808000)

lemma lit_varint_length_4:
  "p = 4 \<Longrightarrow> varint_length False (stream_of [0xfe, 0x80, 0x01, 0x05]) p = 1"
  by (simp add: varint_length_def lit_readbyte bytes_mem_def)

lemma lit_len: "bs_len (stream_of [0xfe, 0x80, 0x01, 0x05]) = 8"
  by (simp add: stream_of_len u32_def)

lemma lit_scan:
  "rlev1_scan False (stream_of [0xfe, 0x80, 0x01, 0x05]) 2 8 (0, 0, 0, (\<lambda>_. 0::u32), (\<lambda>_. 0))
     = Some (2, 0, 5, (\<lambda>_. 0)(0 := 1, 1 := 4), (\<lambda>_. 0))"
  apply (subst rlev1_scan.simps)
  apply (simp add: lit_readbyte bytes_mem_def rlev1_literals_2 lit_varint_length_1
      lit_varint_length_4 NWARPS_def u32_def Let_def)
  apply (subst rlev1_scan.simps)
  apply (simp add: NWARPS_def)
  done

lemma lit_decode_1:
  "p = 1 \<Longrightarrow> decode_varint_u32 (stream_of [0xfe, 0x80, 0x01, 0x05]\<lparr>bs_pos := q\<rparr>) p = (3, 128)"
  by (simp add: decode_varint_u32_def decode_varint_def lit_readbyte bytes_mem_def)

lemma lit_decode_4:
  "p = 4 \<Longrightarrow> decode_varint_u32 (stream_of [0xfe, 0x80, 0x01, 0x05]\<lparr>bs_pos := q\<rparr>) p = (5, 0)"
  by (simp add: decode_varint_u32_def decode_varint_def lit_readbyte bytes_mem_def)

text \<open>
  C1. The claim: the output of \<^verbatim>\<open>Integer_RLEv1\<close> is, block by block, the values the
  control bytes of the stream describe; for a control byte above \<open>0x7F\<close> the next
  \<open>256 - c\<close> varints in order. The stream \<open>FE 80 01 05\<close> is a block of two literals,
  128 and 5. The scan measures the two-byte varint \<open>80 01\<close> as three bytes and
  records position 4, one byte after the second literal, for the second value: the call
  returns 128 and 0.
\<close>

theorem Integer_RLEv1_misplaces_literal_after_long_varint:
  "rlev1_values (Integer_RLEv1_u32 (stream_of [0xfe, 0x80, 0x01, 0x05]) (\<lambda>_. 0) (\<lambda>_. 0) 2)
     = Some (2, [128, 0])"
  by (simp add: rlev1_values_def Integer_RLEv1_u32_def Integer_RLEv1_def lit_len lit_scan
      BYTESTREAM_BFRSZ_def u32_def bytestream_flush_bytes_def rlev1_decode_def NTHREADS_def
      lit_decode_1 lit_decode_4 upt_rec[of _ "numeral _"])

subsection \<open>The run table of Integer RLE version 1\<close>

lemma bit_nat_less: "n < 2 ^ m \<Longrightarrow> bit (n::nat) k \<Longrightarrow> k < m"
  by (metis bit_take_bit_iff take_bit_nat_eq_self)

lemma mask_0x3ff: "(0x3ff :: u32) = mask 10"
  by (simp add: mask_eq_exp_minus_1)

lemma mask_0xff: "(0xff :: u32) = mask 8"
  by (simp add: mask_eq_exp_minus_1)

lemma rlev1_unpack_base:
  assumes "numvals < 1024"
  shows "rlev1_run_base (rlev1_pack delta n numvals) = numvals"
proof -
  have nb: "\<And>k. bit numvals k \<Longrightarrow> k < 10"
    using assms bit_nat_less[of numvals 10] by simp
  have "(rlev1_pack delta n numvals) AND mask 10 = (of_nat numvals :: u32)"
    by (rule bit_eqI) (auto simp: rlev1_pack_def bit_simps dest: nb)
  then show ?thesis using assms
    by (simp add: rlev1_run_base_def unat_of_nat mask_0x3ff)
qed

lemma rlev1_unpack_n:
  assumes "numvals < 1024" "n < 256"
  shows "rlev1_run_n (rlev1_pack delta n numvals) = n"
proof -
  have nb: "\<And>k. bit numvals k \<Longrightarrow> k < 10"
    using assms bit_nat_less[of numvals 10] by simp
  have nn: "\<And>k. bit n k \<Longrightarrow> k < 8"
    using assms bit_nat_less[of n 8] by simp
  have "signed_drop_bit 16 (rlev1_pack delta n numvals) AND mask 8 = (of_nat n :: u32)"
    by (rule bit_eqI) (auto simp: rlev1_pack_def bit_simps dest: nb nn)
  then show ?thesis using assms
    by (simp add: rlev1_run_n_def unat_of_nat mask_0xff)
qed

lemma rlev1_unpack_delta:
  assumes "numvals < 1024" "n < 256"
  shows "rlev1_run_delta (rlev1_pack delta n numvals) = scast delta"
proof -
  have nb: "\<And>k. bit numvals k \<Longrightarrow> k < 10"
    using assms bit_nat_less[of numvals 10] by simp
  have nn: "\<And>k. bit n k \<Longrightarrow> k < 8"
    using assms bit_nat_less[of n 8] by simp
  show ?thesis
    by (rule bit_eqI) (auto simp: rlev1_run_delta_def rlev1_pack_def bit_simps dest: nb nn)
qed

lemma u32_small: "x < 4294967296 \<Longrightarrow> u32 x = x"
  by (simp add: u32_def)

lemma rlev1_run_recordedI:
  "3 \<le> n \<Longrightarrow> n \<le> 130 \<Longrightarrow> base + n \<le> mv \<Longrightarrow> mv \<le> 1024
     \<Longrightarrow> rlev1_run_recorded mv (rlev1_pack d n base) (d, n, base)"
  unfolding rlev1_run_recorded_def
  using rlev1_unpack_base[of base d n] rlev1_unpack_n[of base n d] rlev1_unpack_delta[of base n d]
  by simp

text \<open>
  The scan returns when \<open>maxvals \<le> 1024\<close>, and entry \<open>r\<close> of its table is the record of the
  \<open>r\<close>-th run it discovers: induction on the number of values still to be found.
\<close>

lemma rlev1_scan_runs_inv:
  assumes mv: "maxvals \<le> 1024"
  shows "numvals \<le> maxvals \<Longrightarrow> length runs = numruns
    \<Longrightarrow> \<forall>r<numruns. rlev1_run_recorded maxvals (run_data r) (runs ! r) \<Longrightarrow>
    \<exists>nv nr lp vs rd rs.
        rlev1_scan wide bs maxvals maxpos (numvals, numruns, lastpos, vals, run_data)
          = Some (nv, nr, lp, vs, rd)
      \<and> rlev1_scan_runs wide bs maxvals maxpos (numvals, numruns, lastpos, vals, runs) = Some rs
      \<and> nv \<le> maxvals \<and> length rs = nr
      \<and> (\<forall>r<nr. rlev1_run_recorded maxvals (rd r) (rs ! r))"
proof (induction "maxvals - numvals" arbitrary: numvals numruns lastpos vals run_data runs rule: less_induct)
  case less
  note IH = less.hyps
  note inv = less.prems
  let ?c = "unat (bytestream_readbyte bs lastpos)"
  let ?p1 = "u32 (lastpos + 1)"
  have c256: "?c < 256"
    using unsigned_less[of "bytestream_readbyte bs lastpos", where ?'a = nat] by simp
  show ?case
  proof (cases "numvals < maxvals \<and> numruns < NWARPS * 12")
    case False
    have "rlev1_scan wide bs maxvals maxpos (numvals, numruns, lastpos, vals, run_data)
        = Some (numvals, numruns, lastpos, vals, run_data)"
      using False by (subst rlev1_scan.simps) auto
    moreover have "rlev1_scan_runs wide bs maxvals maxpos (numvals, numruns, lastpos, vals, runs) = Some runs"
      using False by (subst rlev1_scan_runs.simps) auto
    ultimately show ?thesis using inv by simp
  next
    case go: True
    show ?thesis
    proof (cases "?c \<le> 0x7f")
      case run: True
      let ?n = "?c + 3"
      let ?delta = "bytestream_readbyte bs ?p1"
      let ?p2 = "u32 (?p1 + 1)"
      let ?vals' = "vals(numvals := of_nat (?p2 mod 65536))"
      let ?p3 = "u32 (?p2 + varint_length wide bs ?p2)"
      have un: "u32 (numvals + ?n) = numvals + ?n"
        using inv(1) mv run by (intro u32_small) simp
      show ?thesis
      proof (cases "numvals + ?n > maxvals")
        case True
        have "rlev1_scan wide bs maxvals maxpos (numvals, numruns, lastpos, vals, run_data)
            = Some (numvals, numruns, lastpos, vals, run_data)"
          using go run True un by (subst rlev1_scan.simps) (simp add: Let_def)
        moreover have "rlev1_scan_runs wide bs maxvals maxpos (numvals, numruns, lastpos, vals, runs) = Some runs"
          using go run True un by (subst rlev1_scan_runs.simps) (simp add: Let_def)
        ultimately show ?thesis using inv by simp
      next
        case fits: False
        show ?thesis
        proof (cases "?p3 > maxpos")
          case True
          have "rlev1_scan wide bs maxvals maxpos (numvals, numruns, lastpos, vals, run_data)
              = Some (numvals, numruns, lastpos, ?vals', run_data)"
            using go run fits un True by (subst rlev1_scan.simps) (simp add: Let_def)
          moreover have "rlev1_scan_runs wide bs maxvals maxpos (numvals, numruns, lastpos, vals, runs) = Some runs"
            using go run fits un True by (subst rlev1_scan_runs.simps) (simp add: Let_def)
          ultimately show ?thesis using inv by simp
        next
          case False
          let ?rd' = "run_data(numruns := rlev1_pack ?delta ?n numvals)"
          let ?runs' = "runs @ [(?delta, ?n, numvals)]"
          have s1: "rlev1_scan wide bs maxvals maxpos (numvals, numruns, lastpos, vals, run_data)
              = rlev1_scan wide bs maxvals maxpos (numvals + ?n, numruns + 1, ?p3, ?vals', ?rd')"
            using go run fits un False by (subst rlev1_scan.simps) (simp add: Let_def)
          have s2: "rlev1_scan_runs wide bs maxvals maxpos (numvals, numruns, lastpos, vals, runs)
              = rlev1_scan_runs wide bs maxvals maxpos (numvals + ?n, numruns + 1, ?p3, ?vals', ?runs')"
            using go run fits un False by (subst rlev1_scan_runs.simps) (simp add: Let_def)
          have new: "rlev1_run_recorded maxvals (rlev1_pack ?delta ?n numvals) (?delta, ?n, numvals)"
            using run fits mv by (intro rlev1_run_recordedI) simp_all
          have rec: "\<forall>r<numruns + 1. rlev1_run_recorded maxvals (?rd' r) (?runs' ! r)"
            using inv(2,3) new by (auto simp: less_Suc_eq nth_append)
          show ?thesis
            unfolding s1 s2
            by (rule IH) (use fits go inv(2) rec in simp_all)
        qed
      qed
    next
      case lit: False
      let ?n = "0x100 - ?c"
      obtain p3 vals' where l: "rlev1_literals wide bs ?n numvals ?p1 vals = (p3, vals')"
        by (cases "rlev1_literals wide bs ?n numvals ?p1 vals") auto
      have npos: "0 < ?n" using c256 by simp
      have un: "u32 (numvals + ?n) = numvals + ?n"
        using inv(1) mv by (intro u32_small) simp
      show ?thesis
      proof (cases "numvals + ?n > maxvals")
        case True
        have "rlev1_scan wide bs maxvals maxpos (numvals, numruns, lastpos, vals, run_data)
            = Some (numvals, numruns, lastpos, vals, run_data)"
          using go lit True un by (subst rlev1_scan.simps) (simp add: Let_def)
        moreover have "rlev1_scan_runs wide bs maxvals maxpos (numvals, numruns, lastpos, vals, runs) = Some runs"
          using go lit True un by (subst rlev1_scan_runs.simps) (simp add: Let_def)
        ultimately show ?thesis using inv by simp
      next
        case fits: False
        show ?thesis
        proof (cases "p3 > maxpos")
          case True
          have "rlev1_scan wide bs maxvals maxpos (numvals, numruns, lastpos, vals, run_data)
              = Some (numvals, numruns, lastpos, vals', run_data)"
            using go lit fits un True l by (subst rlev1_scan.simps) (simp add: Let_def)
          moreover have "rlev1_scan_runs wide bs maxvals maxpos (numvals, numruns, lastpos, vals, runs) = Some runs"
            using go lit fits un True l by (subst rlev1_scan_runs.simps) (simp add: Let_def)
          ultimately show ?thesis using inv by simp
        next
          case False
          have s1: "rlev1_scan wide bs maxvals maxpos (numvals, numruns, lastpos, vals, run_data)
              = rlev1_scan wide bs maxvals maxpos (numvals + ?n, numruns, p3, vals', run_data)"
            using go lit fits un False l by (subst rlev1_scan.simps) (simp add: Let_def)
          have s2: "rlev1_scan_runs wide bs maxvals maxpos (numvals, numruns, lastpos, vals, runs)
              = rlev1_scan_runs wide bs maxvals maxpos (numvals + ?n, numruns, p3, vals', runs)"
            using go lit fits un False l by (subst rlev1_scan_runs.simps) (simp add: Let_def)
          show ?thesis
            unfolding s1 s2
            by (rule IH) (use fits go npos inv in simp_all)
        qed
      qed
    qed
  qed
qed


text \<open>
  Claim C10. For \<open>maxvals \<le> 1024\<close> a call of \<^verbatim>\<open>Integer_RLEv1\<close> returns, with at most
  \<open>maxvals\<close> values; its table has one entry for each run that the scan discovers, in order;
  the entry of the run with delta byte \<open>delta\<close>, length \<open>n\<close> and first slot \<open>base\<close> is the word
  \<^verbatim>\<open>(delta << 24) | (n << 16) | base\<close>, with \<open>3 \<le> n \<le> 130\<close> and \<open>base \<le> 1023\<close>; and the expansion
  step reads back from it the same \<open>base\<close> (mask \<open>0x3ff\<close>), the same \<open>n\<close> (mask \<open>0xff\<close>) and the
  sign-extended \<open>delta\<close> (arithmetic shift by 24).
\<close>

theorem Integer_RLEv1_run_data_lossless:
  assumes "maxvals \<le> 1024"
  shows "\<exists>numvals vals bs' run_data numruns runs.
     Integer_RLEv1 wide dec bs run_data0 vals0 maxvals = Some (numvals, vals, bs', run_data, numruns)
     \<and> Integer_RLEv1_runs wide bs vals0 maxvals = Some runs
     \<and> numvals \<le> maxvals \<and> numruns = length runs
     \<and> (\<forall>r<numruns. case runs ! r of (delta, n, base) \<Rightarrow>
            run_data r = rlev1_pack delta n base \<and> 3 \<le> n \<and> n \<le> 130 \<and> base \<le> 1023
          \<and> rlev1_run_base (run_data r) = base
          \<and> rlev1_run_n (run_data r) = n
          \<and> rlev1_run_delta (run_data r) = scast delta)"
proof -
  let ?maxpos = "min (bs_len bs) (u32 (bs_pos bs + (BYTESTREAM_BFRSZ - 8)))"
  obtain nv nr lp vs rd rs where
    scan: "rlev1_scan wide bs maxvals ?maxpos (0, 0, bs_pos bs, vals0, run_data0) = Some (nv, nr, lp, vs, rd)"
    and runs: "rlev1_scan_runs wide bs maxvals ?maxpos (0, 0, bs_pos bs, vals0, []) = Some rs"
    and nv: "nv \<le> maxvals" and len: "length rs = nr"
    and ok: "\<forall>r<nr. rlev1_run_recorded maxvals (rd r) (rs ! r)"
    using rlev1_scan_runs_inv[OF assms, of 0 "[]" 0 run_data0 wide bs ?maxpos "bs_pos bs" vals0] by auto
  have "case rs ! r of (delta, n, base) \<Rightarrow>
            rd r = rlev1_pack delta n base \<and> 3 \<le> n \<and> n \<le> 130 \<and> base \<le> 1023
          \<and> rlev1_run_base (rd r) = base \<and> rlev1_run_n (rd r) = n
          \<and> rlev1_run_delta (rd r) = scast delta" if "r < nr" for r
    using ok that assms by (auto simp: rlev1_run_recorded_def split: prod.splits)
  then show ?thesis
    using scan runs nv len
    by (simp add: Integer_RLEv1_def Integer_RLEv1_runs_def Let_def split: prod.split)
qed

text \<open>The stream \<open>00 01 05\<close>: one run of three values with delta 1, from the value 5.\<close>

lemma run3_readbyte:
  "bytestream_readbyte (stream_of [0x00, 0x01, 0x05]) p = bytes_mem [0x00, 0x01, 0x05] (p mod 8192)"
  by (rule stream_of_readbyte) simp

lemma run3_varint_length:
  "p = 2 \<Longrightarrow> varint_length False (stream_of [0x00, 0x01, 0x05]) p = 1"
  by (simp add: varint_length_def run3_readbyte bytes_mem_def)

lemma run3_len: "bs_len (stream_of [0x00, 0x01, 0x05]) = 8"
  by (simp add: stream_of_len u32_def)

lemma run3_runs:
  "Integer_RLEv1_runs False (stream_of [0x00, 0x01, 0x05]) (\<lambda>_. 0 :: u32) 3 = Some [(1, 3, 0)]"
  unfolding Integer_RLEv1_runs_def
  apply (subst rlev1_scan_runs.simps)
  apply (simp add: run3_readbyte run3_varint_length run3_len bytes_mem_def u32_def NWARPS_def
      BYTESTREAM_BFRSZ_def LOG2_BYTESTREAM_BFRSZ_def Let_def)
  apply (subst rlev1_scan_runs.simps)
  apply simp
  done

text \<open>
  For the stream \<open>00 01 05\<close> and \<open>maxvals = 3\<close> the scan discovers the one run \<open>(1, 3, 0)\<close>, the
  table has the one entry \<open>0x01030000\<close>, and the three reads give 0, 3 and 1.
\<close>

theorem Integer_RLEv1_run_data_lossless_witness:
  "(3::nat) \<le> 1024 \<and>
   (\<exists>numvals vals bs' run_data numruns.
     Integer_RLEv1 False decode_varint_u32 (stream_of [0x00, 0x01, 0x05]) (\<lambda>_. 0) (\<lambda>_. 0) 3
       = Some (numvals, vals, bs', run_data, numruns)
     \<and> Integer_RLEv1_runs False (stream_of [0x00, 0x01, 0x05]) (\<lambda>_. 0 :: u32) 3 = Some [(1, 3, 0)]
     \<and> numruns = 1 \<and> run_data 0 = 0x01030000
     \<and> rlev1_run_base (run_data 0) = 0
     \<and> rlev1_run_n (run_data 0) = 3
     \<and> rlev1_run_delta (run_data 0) = 1)"
proof -
  have p: "rlev1_pack 1 3 0 = 0x01030000" by (simp add: rlev1_pack_def)
  show ?thesis
    using Integer_RLEv1_run_data_lossless[of 3 False decode_varint_u32 "stream_of [0x00, 0x01, 0x05]" "\<lambda>_. 0" "\<lambda>_. 0"]
    by (auto simp: run3_runs p)
qed

subsection \<open>Lengths to positions is the inclusive prefix sum\<close>

lemma and_pow2_nat: "(t::nat) AND 2 ^ k \<noteq> 0 \<longleftrightarrow> bit t k"
  by (simp add: and_exp_eq_0_iff_not_bit)

lemma l2p_src_bits:
  "(int t AND NOT (2 ^ k)) OR (2 ^ k - 1) = push_bit (Suc k) (drop_bit (Suc k) (int t)) OR mask k"
  apply (rule bit_eqI)
  apply (auto simp: bit_simps bit_exp_iff mask_eq_exp_minus_1[symmetric] simp del: push_bit_Suc drop_bit_Suc)
  done

lemma l2p_src_pow2:
  assumes "bit t k"
  shows "l2p_src t (2 ^ k) = t div 2 ^ Suc k * 2 ^ Suc k + (2 ^ k - 1)"
proof -
  have disj: "push_bit (Suc k) (drop_bit (Suc k) (int t)) AND mask k = 0"
    by (rule bit_eqI) (auto simp: bit_simps simp del: push_bit_Suc drop_bit_Suc)
  have "(int t AND NOT (2 ^ k)) OR (2 ^ k - 1) = push_bit (Suc k) (drop_bit (Suc k) (int t)) + mask k"
    using l2p_src_bits[of t k] disjunctive_add_eq_or[OF disj] by simp
  also have "\<dots> = int (t div 2 ^ Suc k * 2 ^ Suc k) + int (2 ^ k - 1)"
    by (simp add: push_bit_eq_mult drop_bit_eq_div mask_eq_exp_minus_1 zdiv_int of_nat_diff
        del: push_bit_Suc drop_bit_Suc)
  also have "\<dots> = int (t div 2 ^ Suc k * 2 ^ Suc k + (2 ^ k - 1))"
    by (simp only: of_nat_add)
  finally show ?thesis
    by (simp add: l2p_src_def)
qed

lemma mod_double_bit:
  "(t::nat) mod 2 ^ Suc k = (if bit t k then 2 ^ k + t mod 2 ^ k else t mod 2 ^ k)"
proof -
  have "t mod (2 ^ k * 2) = 2 ^ k * (t div 2 ^ k mod 2) + t mod 2 ^ k"
    by (rule mod_mult2_eq)
  then show ?thesis
    by (auto simp: bit_iff_odd mult.commute odd_iff_mod_2_eq_one)
qed

lemma sum_split_at:
  fixes g :: "nat \<Rightarrow> 'a::comm_monoid_add"
  assumes "a \<le> Suc s" "s < t"
  shows "(\<Sum>j = a..t. g j) = (\<Sum>j = a..s. g j) + (\<Sum>j = Suc s..t. g j)"
proof -
  have "{a..t} = {a..s} \<union> {Suc s..t}"
    using assms by auto
  moreover have "{a..s} \<inter> {Suc s..t} = {}"
    by auto
  ultimately show ?thesis
    by (simp add: sum.union_disjoint)
qed

lemma l2p_level_step:
  fixes x vals :: "nat \<Rightarrow> 'a::len word"
  assumes inv: "\<And>t. t < numvals \<Longrightarrow> t < NTHREADS \<Longrightarrow> vals t = (\<Sum>j = t - t mod 2 ^ k..t. x j)"
    and t: "t < numvals" "t < NTHREADS"
  shows "l2p_level (2 ^ k) numvals vals t = (\<Sum>j = t - t mod 2 ^ Suc k..t. x j)"
proof (cases "bit t k")
  case False
  then have "l2p_level (2 ^ k) numvals vals t = vals t"
    by (simp add: l2p_level_def and_exp_eq_0_iff_not_bit)
  moreover have "t mod 2 ^ Suc k = t mod 2 ^ k"
    using False by (simp only: mod_double_bit if_False)
  ultimately show ?thesis
    using inv[OF t] by simp
next
  case True
  define s where "s = t div 2 ^ Suc k * 2 ^ Suc k + (2 ^ k - 1)"
  have tm: "t mod 2 ^ Suc k = 2 ^ k + t mod 2 ^ k"
    using True by (simp only: mod_double_bit if_True)
  have td: "t = t div 2 ^ Suc k * 2 ^ Suc k + t mod 2 ^ Suc k"
    by (rule div_mult_mod_eq[symmetric])
  have pos: "(0::nat) < 2 ^ k" by simp
  have s_lt: "s < t"
    using td tm pos unfolding s_def by linarith
  have s_mod: "s mod 2 ^ k = 2 ^ k - 1"
  proof -
    have "s = (2 ^ k - 1) + (t div 2 ^ Suc k * 2) * 2 ^ k"
      by (simp add: s_def)
    then have "s mod 2 ^ k = (2 ^ k - 1) mod 2 ^ k"
      by (simp only: mod_mult_self1)
    then show ?thesis by simp
  qed
  have lower: "s - s mod 2 ^ k = t - t mod 2 ^ Suc k"
  proof -
    have a: "t - t mod 2 ^ Suc k = t div 2 ^ Suc k * 2 ^ Suc k"
      by (metis td add_diff_cancel_right')
    have "s - s mod 2 ^ k = s - (2 ^ k - 1)"
      by (simp only: s_mod)
    also have "\<dots> = t div 2 ^ Suc k * 2 ^ Suc k"
      unfolding s_def by (rule add_diff_cancel_right')
    finally show ?thesis using a by simp
  qed
  have upper: "t - t mod 2 ^ k = Suc s"
  proof -
    have "t mod 2 ^ k \<le> t" by (rule mod_less_eq_dividend)
    then show ?thesis
      using td tm pos unfolding s_def by linarith
  qed
  have vs: "vals s = (\<Sum>j = t - t mod 2 ^ Suc k..s. x j)"
    using inv[of s] s_lt t lower by simp
  have vt: "vals t = (\<Sum>j = Suc s..t. x j)"
    using inv[OF t] upper by simp
  have le: "t - t mod 2 ^ Suc k \<le> Suc s"
    using lower by linarith
  have "l2p_level (2 ^ k) numvals vals t = vals t + vals s"
    using True t by (simp add: l2p_level_def and_exp_eq_0_iff_not_bit l2p_src_pow2 s_def)
  also have "\<dots> = (\<Sum>j = t - t mod 2 ^ Suc k..t. x j)"
    using sum_split_at[OF le s_lt, of x] vs vt by (simp add: add.commute)
  finally show ?thesis .
qed

lemma l2p_level_outside:
  "\<not> (t < numvals \<and> t < NTHREADS) \<Longrightarrow> l2p_level n numvals vals t = vals t"
  by (auto simp: l2p_level_def)

lemma l2p_loop_prefix:
  fixes x vals :: "nat \<Rightarrow> 'a::len word"
  assumes nv: "numvals \<le> NTHREADS"
  shows "(\<And>t. t < numvals \<Longrightarrow> vals t = (\<Sum>j = t - t mod 2 ^ k..t. x j)) \<Longrightarrow>
         (\<And>t. numvals \<le> t \<Longrightarrow> vals t = x t) \<Longrightarrow>
         \<exists>out. l2p_loop (2 ^ k) numvals vals = Some out
             \<and> (\<forall>t<numvals. out t = (\<Sum>j\<le>t. x j)) \<and> (\<forall>t\<ge>numvals. out t = x t)"
proof (induction "numvals - 2 ^ k" arbitrary: k vals rule: less_induct)
  case less
  show ?case
  proof (cases "2 ^ k < numvals")
    case True
    then have small: "\<not> (2::nat) ^ 32 \<le> 2 * 2 ^ k"
      using nv by (simp add: NTHREADS_def)
    have unf: "l2p_loop (2 ^ k) numvals vals = l2p_loop (2 ^ Suc k) numvals (l2p_level (2 ^ k) numvals vals)"
      using True small by (subst l2p_loop.simps) simp
    have "(0::nat) < 2 ^ k" by simp
    then have m: "numvals - 2 ^ Suc k < numvals - 2 ^ k"
      using True by (simp only: power_Suc)
    have i1: "l2p_level (2 ^ k) numvals vals t = (\<Sum>j = t - t mod 2 ^ Suc k..t. x j)" if "t < numvals" for t
      using l2p_level_step[where numvals=numvals and vals=vals and k=k and x=x and t=t] less.prems(1) that nv by simp
    have i2: "l2p_level (2 ^ k) numvals vals t = x t" if "numvals \<le> t" for t
      using l2p_level_outside[where t=t and numvals=numvals and n="2 ^ k" and vals=vals] less.prems(2) that by simp
    show ?thesis
      unfolding unf using less.hyps[OF m i1 i2] by simp
  next
    case False
    have "vals t = (\<Sum>j\<le>t. x j)" if "t < numvals" for t
    proof -
      have "t mod 2 ^ k = t" using that False by simp
      then show ?thesis using less.prems(1)[OF that] by (simp add: atMost_atLeast0)
    qed
    then show ?thesis
      using False less.prems(2) by (subst l2p_loop.simps) simp
  qed
qed

lemma lengths_to_positions_prefix_sum:
  fixes vals :: "nat \<Rightarrow> 'a::len word"
  assumes "numvals \<le> NTHREADS"
  shows "\<exists>out. lengths_to_positions vals numvals = Some out
             \<and> (\<forall>t<numvals. out t = (\<Sum>j\<le>t. vals j)) \<and> (\<forall>t\<ge>numvals. out t = vals t)"
  using l2p_loop_prefix[OF assms, where vals=vals and x=vals and k=0]
  by (simp add: lengths_to_positions_def)

subsection \<open>Dictionary entries\<close>

text \<open>
  A pass with \<open>numvals\<close> decoded lengths (between 1 and \<open>NTHREADS\<close>) writes the pairs (byte
  offset before the entry, length): entry \<open>t\<close> of the pass starts at \<open>dict_pos\<close> plus the
  lengths before it, the entries outside the pass are not touched, and \<open>dict_pos\<close> and
  \<open>local_dict\<close> advance by the bytes and the entries of the pass.
\<close>

lemma dict_batch_spec:
  assumes "0 < numvals" "numvals \<le> NTHREADS"
  shows "\<exists>vals' st' gd'. dict_batch numvals vals st gd = Some (vals', st', gd')
     \<and> (\<forall>t<numvals. gd' (local_dict st + t)
            = \<lparr> ent_pos = dict_pos st + (\<Sum>j<t. vals j), ent_len = vals t \<rparr>)
     \<and> (\<forall>i. i < local_dict st \<or> local_dict st + numvals \<le> i \<longrightarrow> gd' i = gd i)
     \<and> dict_pos st' = dict_pos st + (\<Sum>j<numvals. vals j)
     \<and> local_dict st' = local_dict st + numvals
     \<and> dict_len st' = u32 (dict_len st + 2 ^ 32 - numvals)"
proof -
  obtain out where out: "lengths_to_positions vals numvals = Some out"
    and pre: "\<forall>t<numvals. out t = (\<Sum>j\<le>t. vals j)"
    using lengths_to_positions_prefix_sum[OF assms(2), of vals] by blast
  have excl: "out t - vals t = (\<Sum>j<t. vals j)" if "t < numvals" for t
    using pre that by (simp add: lessThan_Suc_atMost[symmetric])
  have last: "out (numvals - 1) = (\<Sum>j<numvals. vals j)"
  proof -
    have "{..numvals - 1} = {..<numvals}" using assms(1) by auto
    then show ?thesis using pre assms(1) by simp
  qed
  show ?thesis
    using assms out last
    apply (simp add: dict_batch_def Let_def)
    apply (auto simp: excl add_diff_eq[symmetric] simp del: add_diff_eq)
    done
qed

lemma sum_list_take_map_upt:
  fixes f :: "nat \<Rightarrow> 'a::comm_monoid_add"
  assumes "t \<le> k"
  shows "sum_list (take t (map f [0..<k])) = (\<Sum>j<t. f j)"
proof -
  have "take t (map f [0..<k]) = map f [0..<t]"
    using assms by (simp add: take_map min_def)
  then show ?thesis
    by (simp add: interv_sum_list_conv_sum_set_nat atLeast0LessThan)
qed

lemma u32_sub:
  assumes "k \<le> a" "a < 4294967296"
  shows "u32 (a + 4294967296 - k) = a - k"
proof -
  have e: "a + 4294967296 - k = (a - k) + 4294967296" using assms by simp
  have "a - k < 4294967296" using assms by simp
  then show ?thesis unfolding u32_def e by simp
qed

text \<open>
  A pass of the loop in terms of the list of its lengths, for a decoder that returns at most
  the number of values asked for: the pass writes one entry for each length, at the byte offset
  \<open>dict_pos\<close> plus the lengths before it, and advances the state by the entries and bytes
  written.  This covers the pass in which the decoder returns no value.
\<close>

lemma dict_batch_lens_spec:
  assumes n: "n \<le> min (dict_len st) NTHREADS" and pos: "0 < dict_len st" and lt: "dict_len st < 2 ^ 32"
  shows "\<exists>vals' st' gd'. dict_batch n v st gd = Some (vals', st', gd')
     \<and> 0 < length (dict_batch_lens n v st)
     \<and> length (dict_batch_lens n v st) \<le> dict_len st
     \<and> (\<forall>t<length (dict_batch_lens n v st). gd' (local_dict st + t)
            = \<lparr> ent_pos = dict_pos st + sum_list (take t (dict_batch_lens n v st)),
                ent_len = dict_batch_lens n v st ! t \<rparr>)
     \<and> (\<forall>i. i < local_dict st \<or> local_dict st + length (dict_batch_lens n v st) \<le> i \<longrightarrow> gd' i = gd i)
     \<and> dict_pos st' = dict_pos st + sum_list (dict_batch_lens n v st)
     \<and> local_dict st' = local_dict st + length (dict_batch_lens n v st)
     \<and> dict_len st' = dict_len st - length (dict_batch_lens n v st)"
proof (cases "n = 0")
  case True
  let ?k = "min (dict_len st) NTHREADS"
  have k: "0 < ?k" "?k \<le> NTHREADS" "?k \<le> dict_len st"
    using pos by (simp_all add: NTHREADS_def)
  have L: "dict_batch_lens n v st = replicate ?k 0"
    using True by (simp add: dict_batch_lens_def map_replicate_const)
  have l2p: "lengths_to_positions v 0 = Some v"
    by (simp add: lengths_to_positions_def l2p_loop.simps)
  have dl: "u32 (dict_len st + 2 ^ 32 - ?k) = dict_len st - ?k"
    using k lt u32_sub[of ?k "dict_len st"] by simp
  show ?thesis
    unfolding L using True k l2p dl
    by (auto simp add: dict_batch_def Let_def sum_list_replicate)
next
  case False
  then have n0: "0 < n" by simp
  have nt: "n \<le> NTHREADS" and nd: "n \<le> dict_len st" using n by simp_all
  let ?L = "dict_batch_lens n v st"
  have L: "?L = map v [0..<n]"
    using False by (simp add: dict_batch_lens_def)
  have len: "length ?L = n" by (simp add: L)
  have tk: "sum_list (take t ?L) = (\<Sum>j<t. v j)" if "t \<le> n" for t
    unfolding L using that by (rule sum_list_take_map_upt)
  have nth: "?L ! t = v t" if "t < n" for t
    unfolding L using that by simp
  have dl: "u32 (dict_len st + 2 ^ 32 - n) = dict_len st - n"
    using nd lt u32_sub[of n "dict_len st"] by simp
  obtain vals' st' gd' where b: "dict_batch n v st gd = Some (vals', st', gd')"
    and e: "\<forall>t<n. gd' (local_dict st + t) = \<lparr> ent_pos = dict_pos st + (\<Sum>j<t. v j), ent_len = v t \<rparr>"
    and o: "\<forall>i. i < local_dict st \<or> local_dict st + n \<le> i \<longrightarrow> gd' i = gd i"
    and p: "dict_pos st' = dict_pos st + (\<Sum>j<n. v j)"
    and q: "local_dict st' = local_dict st + n"
    and r: "dict_len st' = u32 (dict_len st + 2 ^ 32 - n)"
    using dict_batch_spec[OF n0 nt, of v st gd] by blast
  have tk_all: "sum_list ?L = (\<Sum>j<n. v j)"
    using tk[of n] len by simp
  show ?thesis
    unfolding len using b e o p q r n0 nd dl
    by (auto simp: tk nth tk_all)
qed


text \<open>
  The loop returns, and writes one entry for each remaining entry of the dictionary: induction
  on \<open>dict_len\<close>, which every pass decreases.
\<close>

lemma dict_loop_inv:
  assumes rle: "\<And>bs vals m. 0 < m \<Longrightarrow> m \<le> NTHREADS \<Longrightarrow> \<exists>n v b. rle bs vals m = Some (n, v, b) \<and> n \<le> m"
  shows "dict_len st < 2 ^ 32 \<Longrightarrow>
    \<exists>gd' L. dict_loop rle (bs, vals, st, gd) = Some gd'
       \<and> dict_loop_lens rle (bs, vals, st, gd) = Some L
       \<and> length L = dict_len st
       \<and> (\<forall>i<dict_len st. gd' (local_dict st + i)
              = \<lparr> ent_pos = dict_pos st + sum_list (take i L), ent_len = L ! i \<rparr>)
       \<and> (\<forall>i. i < local_dict st \<or> local_dict st + dict_len st \<le> i \<longrightarrow> gd' i = gd i)"
proof (induction "dict_len st" arbitrary: bs vals st gd rule: less_induct)
  case less
  note lt = less.prems
  show ?case
  proof (cases "dict_len st > 0")
    case False
    have "dict_loop rle (bs, vals, st, gd) = Some gd"
      using False by (subst dict_loop.simps) simp
    moreover have "dict_loop_lens rle (bs, vals, st, gd) = Some []"
      using False by (subst dict_loop_lens.simps) simp
    ultimately show ?thesis using False by simp
  next
    case True
    let ?m = "min (dict_len st) NTHREADS"
    have m: "0 < ?m" "?m \<le> NTHREADS" using True by (simp_all add: NTHREADS_def)
    obtain n v b where r: "rle bs vals ?m = Some (n, v, b)" and n: "n \<le> ?m"
      using rle[OF m, of bs vals] by blast
    let ?B = "dict_batch_lens n v st"
    let ?k = "length ?B"
    obtain vals2 st' gd1 where
      b: "dict_batch n v st gd = Some (vals2, st', gd1)"
      and k0: "0 < ?k" and kd: "?k \<le> dict_len st"
      and e1: "\<forall>t<?k. gd1 (local_dict st + t)
            = \<lparr> ent_pos = dict_pos st + sum_list (take t ?B), ent_len = ?B ! t \<rparr>"
      and o1: "\<forall>i. i < local_dict st \<or> local_dict st + ?k \<le> i \<longrightarrow> gd1 i = gd i"
      and p1: "dict_pos st' = dict_pos st + sum_list ?B"
      and q1: "local_dict st' = local_dict st + ?k"
      and r1: "dict_len st' = dict_len st - ?k"
      using dict_batch_lens_spec[OF n True lt, of v gd] by blast
    have dec: "dict_len st' < dict_len st" using r1 k0 kd True by linarith
    have lt': "dict_len st' < 2 ^ 32" using dec lt by simp
    obtain gd' R where
      l2: "dict_loop rle (b, vals2, st', gd1) = Some gd'"
      and g2: "dict_loop_lens rle (b, vals2, st', gd1) = Some R"
      and len2: "length R = dict_len st'"
      and e2: "\<forall>i<dict_len st'. gd' (local_dict st' + i)
              = \<lparr> ent_pos = dict_pos st' + sum_list (take i R), ent_len = R ! i \<rparr>"
      and o2: "\<forall>i. i < local_dict st' \<or> local_dict st' + dict_len st' \<le> i \<longrightarrow> gd' i = gd1 i"
      using less.hyps[OF dec lt', of b vals2 gd1] by blast
    have l: "dict_loop rle (bs, vals, st, gd) = Some gd'"
      using True r b l2 by (subst dict_loop.simps) simp
    have g: "dict_loop_lens rle (bs, vals, st, gd) = Some (?B @ R)"
      using True r b g2 by (subst dict_loop_lens.simps) simp
    have len: "length (?B @ R) = dict_len st"
      using len2 r1 kd by simp
    have ent: "gd' (local_dict st + i)
        = \<lparr> ent_pos = dict_pos st + sum_list (take i (?B @ R)), ent_len = (?B @ R) ! i \<rparr>"
      if i: "i < dict_len st" for i
    proof (cases "i < ?k")
      case True
      have "gd' (local_dict st + i) = gd1 (local_dict st + i)"
        using o2 q1 True by simp
      then show ?thesis using e1 True by (simp add: nth_append)
    next
      case False
      then have ik: "?k \<le> i" by simp
      have i': "i - ?k < dict_len st'" using i ik r1 by simp
      have a: "local_dict st' + (i - ?k) = local_dict st + i" using q1 ik by simp
      have "gd' (local_dict st + i)
          = \<lparr> ent_pos = dict_pos st' + sum_list (take (i - ?k) R), ent_len = R ! (i - ?k) \<rparr>"
        using e2 i' a by (metis (no_types, lifting))
      then show ?thesis using ik p1 False by (simp add: nth_append add.assoc)
    qed
    have out: "gd' i = gd i" if "i < local_dict st \<or> local_dict st + dict_len st \<le> i" for i
    proof -
      have "gd' i = gd1 i" using o2 q1 r1 kd that by auto
      moreover have "gd1 i = gd i" using o1 kd that by auto
      ultimately show ?thesis by simp
    qed
    show ?thesis
      using l g len ent out by blast
  qed
qed


text \<open>\<^verbatim>\<open>Integer_RLEv1\<close> returns, with at most the number of values asked for.\<close>

lemma Integer_RLEv1_returns:
  assumes "maxvals \<le> 1024"
  shows "\<exists>numvals vals bs' run_data numruns.
     Integer_RLEv1 wide dec bs run_data0 vals0 maxvals = Some (numvals, vals, bs', run_data, numruns)
     \<and> numvals \<le> maxvals"
proof -
  let ?maxpos = "min (bs_len bs) (u32 (bs_pos bs + (BYTESTREAM_BFRSZ - 8)))"
  obtain nv nr lp vs rd where
    scan: "rlev1_scan wide bs maxvals ?maxpos (0, 0, bs_pos bs, vals0, run_data0) = Some (nv, nr, lp, vs, rd)"
    and nv: "nv \<le> maxvals"
    using rlev1_scan_runs_inv[OF assms, of 0 "[]" 0 run_data0 wide bs ?maxpos "bs_pos bs" vals0] by auto
  show ?thesis
    using scan nv by (simp add: Integer_RLEv1_def Let_def split: prod.split)
qed

lemma rlev1_lengths_returns:
  assumes "m \<le> NTHREADS"
  shows "\<exists>n v b. rlev1_lengths run_data bs vals m = Some (n, v, b) \<and> n \<le> m"
proof -
  have "m \<le> 1024" using assms by (simp add: NTHREADS_def)
  from Integer_RLEv1_returns[OF this, of False decode_varint_u32 bs run_data vals]
  show ?thesis by (auto simp: rlev1_lengths_def Integer_RLEv1_u32_def)
qed

text \<open>
  Claim C5. For a dictionary-encoded chunk with \<open>dict_len\<close> entries the phase returns and
  writes, for each length it decodes, the pair (byte offset before the entry, length) to the
  entry \<open>dictionary_start + i\<close> of the global dictionary: the offset is the sum of the lengths
  decoded before it, the list of decoded lengths has \<open>dict_len\<close> elements, and the entries of
  other chunks are not touched.  The lengths of a chunk in RLE version 1 are decoded by
  \<^verbatim>\<open>Integer_RLEv1\<close>; for a chunk in RLE version 2 the decoder is a parameter, assumed to
  return at most the number of values asked for.
\<close>

theorem decode_string_dictionary_entries:
  assumes enc: "encoding_kind = DICTIONARY \<or> encoding_kind = DICTIONARY_V2"
    and len: "0 < chunk_dict_len" "chunk_dict_len < 2 ^ 32"
    and v2: "encoding_kind = DICTIONARY_V2 \<Longrightarrow>
       \<forall>bs vals m. 0 < m \<and> m \<le> NTHREADS \<longrightarrow> (\<exists>n v b. rlev2 bs vals m = Some (n, v, b) \<and> n \<le> m)"
  shows "\<exists>gd' L.
      decode_string_dictionary rlev2 encoding_kind chunk_dict_len dictionary_start mem addr strm_len
        vals run_data buf global_dictionary = Some gd'
    \<and> decode_string_dictionary_lengths rlev2 encoding_kind chunk_dict_len dictionary_start mem addr strm_len
        vals run_data buf global_dictionary = Some L
    \<and> length L = chunk_dict_len
    \<and> (\<forall>i<chunk_dict_len. gd' (dictionary_start + i)
           = \<lparr> ent_pos = sum_list (take i L), ent_len = L ! i \<rparr>)
    \<and> (\<forall>i. i < dictionary_start \<or> dictionary_start + chunk_dict_len \<le> i \<longrightarrow> gd' i = global_dictionary i)"
proof -
  let ?rle = "if IS_RLEv1 encoding_kind then rlev1_lengths run_data else rlev2"
  let ?st = "\<lparr> local_dict = dictionary_start, dict_pos = 0, dict_len = chunk_dict_len \<rparr>"
  let ?bs = "bytestream_initbuf (bytestream_init mem addr strm_len buf)"
  have rle: "\<exists>n v b. ?rle bs vals m = Some (n, v, b) \<and> n \<le> m" if "0 < m" "m \<le> NTHREADS" for bs vals m
  proof (cases "encoding_kind = DICTIONARY")
    case True
    then show ?thesis using rlev1_lengths_returns[OF that(2)] by (simp add: IS_RLEv1_def)
  next
    case False
    then have e: "encoding_kind = DICTIONARY_V2" using enc by simp
    then show ?thesis using v2 that by (simp add: IS_RLEv1_def)
  qed
  have lt: "dict_len ?st < 2 ^ 32" using len by simp
  from dict_loop_inv[of ?rle ?st ?bs vals global_dictionary, OF rle lt]
  show ?thesis
    using enc len by (simp add: decode_string_dictionary_def decode_string_dictionary_lengths_def Let_def)
qed


text \<open>The LENGTH stream \<open>FC 03 00 07 02\<close>: a block of four literals, 3, 0, 7 and 2.\<close>

lemma len4_readbyte:
  "bytestream_readbyte (stream_of [0xfc, 0x03, 0x00, 0x07, 0x02]) p = bytes_mem [0xfc, 0x03, 0x00, 0x07, 0x02] (p mod 8192)"
  by (rule stream_of_readbyte) simp

lemma len4_varint_length:
  "0 < p \<Longrightarrow> p < 5 \<Longrightarrow> varint_length False (stream_of [0xfc, 0x03, 0x00, 0x07, 0x02]) p = 1"
  by (auto simp add: varint_length_def len4_readbyte bytes_mem_def nth_Cons split: nat.split)

lemma len4_len: "bs_len (stream_of [0xfc, 0x03, 0x00, 0x07, 0x02]) = 8"
  by (simp add: stream_of_len u32_def)

lemma rlev1_literals_step:
  "0 < m \<Longrightarrow> rlev1_literals w bs m k p v
     = rlev1_literals w bs (m - 1) (Suc k) (u32 (p + varint_length w bs p)) (v(k := of_nat (p mod 65536)))"
  by (cases m) simp_all

lemma len4_literals:
  "p = 1 \<Longrightarrow> rlev1_literals False (stream_of [0xfc, 0x03, 0x00, 0x07, 0x02]) 4 0 p (v :: nat \<Rightarrow> u32)
     = (5, v(0 := 1, 1 := 2, 2 := 3, 3 := 4))"
  apply (simp add: rlev1_literals_step len4_varint_length u32_small)
  apply (simp add: numeral_2_eq_2 numeral_3_eq_3)
  done


lemma len4_scan:
  "rlev1_scan False (stream_of [0xfc, 0x03, 0x00, 0x07, 0x02]) 4 8 (0, 0, 0, (v :: nat \<Rightarrow> u32), rd)
     = Some (4, 0, 5, v(0 := 1, 1 := 2, 2 := 3, 3 := 4), rd)"
  apply (subst rlev1_scan.simps)
  apply (simp add: len4_readbyte bytes_mem_def len4_literals NWARPS_def u32_def Let_def)
  apply (subst rlev1_scan.simps)
  apply (simp add: NWARPS_def)
  done

lemma len4_decode:
  "p = 1 \<Longrightarrow> decode_varint_u32 (stream_of [0xfc, 0x03, 0x00, 0x07, 0x02]\<lparr>bs_pos := q\<rparr>) p = (2, 3)"
  "p = 2 \<Longrightarrow> decode_varint_u32 (stream_of [0xfc, 0x03, 0x00, 0x07, 0x02]\<lparr>bs_pos := q\<rparr>) p = (3, 0)"
  "p = 3 \<Longrightarrow> decode_varint_u32 (stream_of [0xfc, 0x03, 0x00, 0x07, 0x02]\<lparr>bs_pos := q\<rparr>) p = (4, 7)"
  "p = 4 \<Longrightarrow> decode_varint_u32 (stream_of [0xfc, 0x03, 0x00, 0x07, 0x02]\<lparr>bs_pos := q\<rparr>) p = (5, 2)"
  by (simp_all add: decode_varint_u32_def decode_varint_def len4_readbyte bytes_mem_def)

lemma len4_values:
  "rlev1_values (Integer_RLEv1_u32 (stream_of [0xfc, 0x03, 0x00, 0x07, 0x02]) rd v 4) = Some (4, [3, 0, 7, 2])"
  by (simp add: rlev1_values_def Integer_RLEv1_u32_def Integer_RLEv1_def len4_len len4_scan
      BYTESTREAM_BFRSZ_def u32_def bytestream_flush_bytes_def rlev1_decode_def NTHREADS_def
      len4_decode upt_rec[of _ "numeral _"])


lemma len4_lengths:
  "decode_string_dictionary_lengths rlev2 DICTIONARY 4 0 (bytes_mem [0xfc, 0x03, 0x00, 0x07, 0x02]) 0 5
     (\<lambda>_. 0) (\<lambda>_. 0) (\<lambda>_. 0) gd = Some [3, 0, 7, 2]"
proof -
  let ?st = "\<lparr> local_dict = 0, dict_pos = 0, dict_len = 4 \<rparr>"
  obtain v b rd nr where
    r: "Integer_RLEv1_u32 (stream_of [0xfc, 0x03, 0x00, 0x07, 0x02]) (\<lambda>_. 0) (\<lambda>_. 0) 4 = Some (4, v, b, rd, nr)"
    and vs: "map v [0..<4] = [3, 0, 7, 2]"
    using len4_values[of "\<lambda>_. 0" "\<lambda>_. 0"]
    by (auto simp: rlev1_values_def split: option.splits)
  have rl: "rlev1_lengths (\<lambda>_. 0) (stream_of [0xfc, 0x03, 0x00, 0x07, 0x02]) (\<lambda>_. 0) 4 = Some (4, v, b)"
    using r by (simp add: rlev1_lengths_def)
  have B: "dict_batch_lens 4 v ?st = [3, 0, 7, 2]"
  proof -
    have "dict_batch_lens 4 v ?st = map v [0..<4]"
      by (simp add: dict_batch_lens_def)
    then show ?thesis using vs by simp
  qed
  obtain vals2 st' gd1 where
    bt: "dict_batch 4 v ?st gd = Some (vals2, st', gd1)" and dl: "dict_len st' = 0"
    using dict_batch_lens_spec[of 4 ?st v gd] unfolding B by (auto simp: NTHREADS_def)
  have rest: "dict_loop_lens (rlev1_lengths (\<lambda>_. 0)) (b, vals2, st', gd1) = Some []"
    using dl by (subst dict_loop_lens.simps) simp
  have "dict_loop_lens (rlev1_lengths (\<lambda>_. 0)) (stream_of [0xfc, 0x03, 0x00, 0x07, 0x02], (\<lambda>_. 0), ?st, gd) = Some [3, 0, 7, 2]"
    using rl bt rest B by (subst dict_loop_lens.simps) (simp add: NTHREADS_def)
  moreover have "stream_of [0xfc, 0x03, 0x00, 0x07, 0x02] = bytestream_initbuf (bytestream_init (bytes_mem [0xfc, 0x03, 0x00, 0x07, 0x02]) 0 5 (\<lambda>_. 0))"
  proof -
    have "length [0xfc, 0x03, 0x00, 0x07, 0x02 :: u8] = 5" by simp
    then show ?thesis unfolding stream_of_def by (simp only:)
  qed
  ultimately show ?thesis
    by (simp add: decode_string_dictionary_lengths_def IS_RLEv1_def Let_def)
qed

text \<open>
  A chunk of four entries with the LENGTH stream \<open>FC 03 00 07 02\<close>: the decoded lengths are
  3, 0, 7, 2 and the entries written are (0,3), (3,0), (3,7), (10,2).
\<close>

theorem decode_string_dictionary_entries_witness:
  "\<exists>gd'. decode_string_dictionary (\<lambda>bs vals m. None) DICTIONARY 4 0 (bytes_mem [0xfc, 0x03, 0x00, 0x07, 0x02]) 0 5
        (\<lambda>_. 0) (\<lambda>_. 0) (\<lambda>_. 0) (\<lambda>_. \<lparr> ent_pos = 0, ent_len = 0 \<rparr>) = Some gd'
     \<and> decode_string_dictionary_lengths (\<lambda>bs vals m. None) DICTIONARY 4 0 (bytes_mem [0xfc, 0x03, 0x00, 0x07, 0x02]) 0 5
        (\<lambda>_. 0) (\<lambda>_. 0) (\<lambda>_. 0) (\<lambda>_. \<lparr> ent_pos = 0, ent_len = 0 \<rparr>) = Some [3, 0, 7, 2]
     \<and> map gd' [0, 1, 2, 3] =
        [\<lparr> ent_pos = 0, ent_len = 3 \<rparr>, \<lparr> ent_pos = 3, ent_len = 0 \<rparr>,
         \<lparr> ent_pos = 3, ent_len = 7 \<rparr>, \<lparr> ent_pos = 10, ent_len = 2 \<rparr>]"
proof -
  obtain gd' where
    d: "decode_string_dictionary (\<lambda>bs vals m. None) DICTIONARY 4 0 (bytes_mem [0xfc, 0x03, 0x00, 0x07, 0x02]) 0 5
        (\<lambda>_. 0) (\<lambda>_. 0) (\<lambda>_. 0) (\<lambda>_. \<lparr> ent_pos = 0, ent_len = 0 \<rparr>) = Some gd'"
    and e: "\<And>i. i < 4 \<Longrightarrow> gd' (0 + i)
           = \<lparr> ent_pos = sum_list (take i [3, 0, 7, 2]), ent_len = [3, 0, 7, 2] ! i \<rparr>"
    using decode_string_dictionary_entries [of DICTIONARY 4 "\<lambda>bs vals m. None" 0 "bytes_mem [0xfc, 0x03, 0x00, 0x07, 0x02]" 0 5
        "\<lambda>_. 0" "\<lambda>_. 0" "\<lambda>_. 0" "\<lambda>_. \<lparr> ent_pos = 0, ent_len = 0 \<rparr>"]
    by (auto simp: len4_lengths)
  have "gd' 0 = \<lparr> ent_pos = 0, ent_len = 3 \<rparr>" using e[of 0] by simp
  moreover have "gd' 1 = \<lparr> ent_pos = 3, ent_len = 0 \<rparr>" using e[of 1] by simp
  moreover have "gd' 2 = \<lparr> ent_pos = 3, ent_len = 7 \<rparr>" using e[of 2] by (simp add: numeral_2_eq_2)
  moreover have "gd' 3 = \<lparr> ent_pos = 10, ent_len = 2 \<rparr>" using e[of 3] by (simp add: numeral_3_eq_3)
  ultimately show ?thesis using d by (simp add: len4_lengths)
qed

subsection \<open>The row-offset array\<close>

lemma rw_nrows_le: "rw_nrows s \<le> NTHREADS"
  by (simp add: rw_nrows_def)

lemma rw_valid_less: "rw_valid valid_map first_row s t \<Longrightarrow> t < rw_nrows s"
  by (simp add: rw_valid_def Let_def)

lemma rw_positions_rank:
  "\<exists>rop. rw_positions valid_map first_row s = Some rop
     \<and> (\<forall>t. t < rw_nrows s \<longrightarrow> unat (rop t) = card {j. j \<le> t \<and> rw_valid valid_map first_row s j})
     \<and> (\<forall>t. rw_nrows s \<le> t \<longrightarrow> rop t = row_ofs_plus1 s (max_vals s + t))"
proof -
  let ?x = "\<lambda>t. if t < rw_nrows s \<and> t < NTHREADS then of_bool (rw_valid valid_map first_row s t)
            else row_ofs_plus1 s (max_vals s + t)"
  obtain rop where rop: "rw_positions valid_map first_row s = Some rop"
    and pre: "\<forall>t<rw_nrows s. rop t = (\<Sum>j\<le>t. ?x j)"
    and out: "\<forall>t\<ge>rw_nrows s. rop t = ?x t"
    using lengths_to_positions_prefix_sum[OF rw_nrows_le[of s], of ?x]
    unfolding rw_positions_def by blast
  have "unat (rop t) = card {j. j \<le> t \<and> rw_valid valid_map first_row s j}" if t: "t < rw_nrows s" for t
  proof -
    have tn: "t < NTHREADS" using t rw_nrows_le[of s] by simp
    have "(\<Sum>j\<le>t. ?x j) = (\<Sum>j\<le>t. of_bool (rw_valid valid_map first_row s j))"
      using t tn by (intro sum.cong) auto
    also have "\<dots> = of_nat (card ({..t} \<inter> {j. rw_valid valid_map first_row s j}))"
      by simp
    finally have r: "rop t = of_nat (card ({..t} \<inter> {j. rw_valid valid_map first_row s j}))"
      using pre t by simp
    have "card ({..t} \<inter> {j. rw_valid valid_map first_row s j}) \<le> card {..t}"
      by (intro card_mono) auto
    then have "card ({..t} \<inter> {j. rw_valid valid_map first_row s j}) < 65536"
      using tn by (simp add: NTHREADS_def)
    moreover have "{..t} \<inter> {j. rw_valid valid_map first_row s j} = {j. j \<le> t \<and> rw_valid valid_map first_row s j}"
      by auto
    ultimately show ?thesis
      using r by (simp add: unat_of_nat)
  qed
  then show ?thesis using rop out by auto
qed

lemma fold_upd_other:
  "\<forall>t\<in>set ts. P t \<longrightarrow> idx t \<noteq> j \<Longrightarrow>
   fold (\<lambda>t a. if P t then a(idx t := v t) else a) ts a0 j = a0 j"
  by (induction ts arbitrary: a0) auto

lemma rw_nrows_pos:
  "cur_row s + nrows s < end_row s \<Longrightarrow> nrows s < 0xfe00 \<Longrightarrow> 0 < rw_nrows s"
  by (simp add: rw_nrows_def NTHREADS_def)

text \<open>
  One pass over a window of validity bits, entered under the guard of its loop: the
  inclusive prefix sum gives every valid row its rank among the valid rows of the
  window, counted from 1, and \<open>nz_pos\<close> is that rank for a valid row and 0 for a null
  row; \<open>max_vals\<close> grows by the number of valid rows, capped at \<open>NTHREADS\<close>; the slots
  below the old \<open>max_vals\<close> (the skipped values) are not touched.
\<close>

theorem row_window_present_ranks:
  assumes "max_vals s < NTHREADS" "cur_row s + nrows s < end_row s" "nrows s < 0xfe00"
  shows "\<exists>nz s'. rw_nz_pos valid_map first_row s = Some nz
      \<and> row_window_present valid_map first_row s = Some s'
      \<and> (\<forall>t. nz t = (if rw_valid valid_map first_row s t
                      then card {j. j \<le> t \<and> rw_valid valid_map first_row s j} else 0))
      \<and> max_vals s' = min NTHREADS (max_vals s + card {j. rw_valid valid_map first_row s j})
      \<and> (\<forall>j. j < max_vals s \<longrightarrow> row_ofs_plus1 s' j = row_ofs_plus1 s j)"
proof -
  let ?v = "rw_valid valid_map first_row s"
  let ?n = "rw_nrows s"
  obtain rop where rop: "rw_positions valid_map first_row s = Some rop"
    and rank: "\<forall>t. t < ?n \<longrightarrow> unat (rop t) = card {j. j \<le> t \<and> ?v j}"
    using rw_positions_rank[of valid_map first_row s] by blast
  have npos: "0 < ?n" using assms(2,3) by (rule rw_nrows_pos)
  have "{j. j \<le> ?n - 1 \<and> ?v j} = {j. ?v j}"
    using rw_valid_less[of valid_map first_row s] npos by fastforce
  then have total: "unat (rop (?n - 1)) = card {j. ?v j}"
    using rank npos by simp
  have sub: "{j. ?v j} \<subseteq> {..<?n}"
    using rw_valid_less[of valid_map first_row s] by auto
  have "card {j. ?v j} \<le> card {..<?n}"
    using sub by (intro card_mono) auto
  then have cnt: "card {j. ?v j} \<le> NTHREADS"
    using rw_nrows_le[of s] by simp
  have mv: "u32 (max_vals s + card {j. ?v j}) = max_vals s + card {j. ?v j}"
    using cnt assms(1) by (simp add: u32_def NTHREADS_def)
  have keep: "fold (\<lambda>t a. if ?v t then a(max_vals s + (unat (rop t) - 1) := of_nat (nrows s + t)) else a)
                [0..<?n] a0 j = a0 j" if "j < max_vals s" for j and a0 :: "nat \<Rightarrow> u16"
    using that by (intro fold_upd_other) auto
  show ?thesis
    using rop rank total mv
    by (auto simp: rw_nz_pos_def row_window_present_def Let_def keep dest: rw_valid_less)
qed

lemma ex_nrows:
  "rw_nrows \<lparr>cur_row = 0, end_row = 5, max_vals = 0, nrows = 0, buffered_count = 0,
     buffered_pos = 0, row_ofs_plus1 = (\<lambda>_. 0)\<rparr> = 5"
  by (simp add: rw_nrows_def NTHREADS_def)

lemma ex_valid:
  "rw_valid (\<lambda>r. r = 0 \<or> r = 2 \<or> r = 3) 0
     \<lparr>cur_row = 0, end_row = 5, max_vals = 0, nrows = 0, buffered_count = 0,
      buffered_pos = 0, row_ofs_plus1 = (\<lambda>_. 0)\<rparr> t \<longleftrightarrow> t = 0 \<or> t = 2 \<or> t = 3"
proof -
  have "nat (int t mod 4294967296) = t" if "t < 5"
    using that by simp
  then show ?thesis
    by (auto simp: rw_valid_def ex_nrows u32_def Let_def)
qed

lemma ex_ranks:
  "card {j::nat. j \<le> 0 \<and> (j = 0 \<or> j = 2 \<or> j = 3)} = 1"
  "card {j::nat. j \<le> 1 \<and> (j = 0 \<or> j = 2 \<or> j = 3)} = 1"
  "card {j::nat. j \<le> 2 \<and> (j = 0 \<or> j = 2 \<or> j = 3)} = 2"
  "card {j::nat. j \<le> 3 \<and> (j = 0 \<or> j = 2 \<or> j = 3)} = 3"
  "card {j::nat. j \<le> 4 \<and> (j = 0 \<or> j = 2 \<or> j = 3)} = 3"
  "card {j::nat. j = 0 \<or> j = 2 \<or> j = 3} = 3"
proof -
  have "{j::nat. j \<le> 0 \<and> (j = 0 \<or> j = 2 \<or> j = 3)} = {0}" by auto
  then show "card {j::nat. j \<le> 0 \<and> (j = 0 \<or> j = 2 \<or> j = 3)} = 1" by simp
  have "{j::nat. j \<le> 1 \<and> (j = 0 \<or> j = 2 \<or> j = 3)} = {0}" by auto
  then show "card {j::nat. j \<le> 1 \<and> (j = 0 \<or> j = 2 \<or> j = 3)} = 1" by simp
  have "{j::nat. j \<le> 2 \<and> (j = 0 \<or> j = 2 \<or> j = 3)} = {0, 2}" by auto
  then show "card {j::nat. j \<le> 2 \<and> (j = 0 \<or> j = 2 \<or> j = 3)} = 2" by simp
  have "{j::nat. j \<le> 3 \<and> (j = 0 \<or> j = 2 \<or> j = 3)} = {0, 2, 3}" by auto
  then show "card {j::nat. j \<le> 3 \<and> (j = 0 \<or> j = 2 \<or> j = 3)} = 3" by simp
  have "{j::nat. j \<le> 4 \<and> (j = 0 \<or> j = 2 \<or> j = 3)} = {0, 2, 3}" by auto
  then show "card {j::nat. j \<le> 4 \<and> (j = 0 \<or> j = 2 \<or> j = 3)} = 3" by simp
  have "{j::nat. j = 0 \<or> j = 2 \<or> j = 3} = {0, 2, 3}" by auto
  then show "card {j::nat. j = 0 \<or> j = 2 \<or> j = 3} = 3" by simp
qed

theorem row_window_present_ranks_witness:
  "max_vals \<lparr>cur_row = 0, end_row = 5, max_vals = 0, nrows = 0, buffered_count = 0,
      buffered_pos = 0, row_ofs_plus1 = (\<lambda>_. 0)\<rparr> < NTHREADS
   \<and> (\<exists>nz s'.
        rw_nz_pos (\<lambda>r. r = 0 \<or> r = 2 \<or> r = 3) 0
          \<lparr>cur_row = 0, end_row = 5, max_vals = 0, nrows = 0, buffered_count = 0,
           buffered_pos = 0, row_ofs_plus1 = (\<lambda>_. 0)\<rparr> = Some nz
      \<and> row_window_present (\<lambda>r. r = 0 \<or> r = 2 \<or> r = 3) 0
          \<lparr>cur_row = 0, end_row = 5, max_vals = 0, nrows = 0, buffered_count = 0,
           buffered_pos = 0, row_ofs_plus1 = (\<lambda>_. 0)\<rparr> = Some s'
      \<and> map nz [0, 1, 2, 3, 4] = [1, 0, 2, 3, 0]
      \<and> max_vals s' = 3)"
proof -
  let ?vm = "\<lambda>r::nat. r = 0 \<or> r = 2 \<or> r = 3"
  let ?s = "\<lparr>cur_row = 0, end_row = 5, max_vals = 0, nrows = 0, buffered_count = 0,
      buffered_pos = 0, row_ofs_plus1 = (\<lambda>_. 0 :: u16)\<rparr>"
  have pre: "max_vals ?s < NTHREADS" "cur_row ?s + nrows ?s < end_row ?s" "nrows ?s < 0xfe00"
    by (simp_all add: NTHREADS_def)
  have sets: "{j. j \<le> t \<and> rw_valid ?vm 0 ?s j} = {j. j \<le> t \<and> (j = 0 \<or> j = 2 \<or> j = 3)}"
    "{j. rw_valid ?vm 0 ?s j} = {j. j = 0 \<or> j = 2 \<or> j = 3}" for t
    by (simp_all only: ex_valid)
  from row_window_present_ranks[OF pre, of ?vm 0] obtain nz s' where
    nz: "rw_nz_pos ?vm 0 ?s = Some nz" and s': "row_window_present ?vm 0 ?s = Some s'"
    and r: "\<And>t. nz t = (if rw_valid ?vm 0 ?s t then card {j. j \<le> t \<and> rw_valid ?vm 0 ?s j} else 0)"
    and m: "max_vals s' = min NTHREADS (max_vals ?s + card {j. rw_valid ?vm 0 ?s j})"
    by blast
  have "nz 0 = 1" "nz 1 = 0" "nz 2 = 2" "nz 3 = 3" "nz 4 = 0"
    unfolding r sets ex_valid ex_ranks by simp_all
  moreover have "max_vals s' = 3"
    unfolding m sets ex_ranks by (simp add: NTHREADS_def)
  ultimately show ?thesis
    using nz s' pre(1) by simp
qed

lemma upt_0_5: "[0..<5] = [0, 1, 2, 3, 4]"
  by (simp add: upt_rec[of _ "numeral _"])

lemma word_of_unat: "unat (w :: 'a::len word) = n \<Longrightarrow> w = of_nat n"
  by (metis of_nat_unat ucast_id)

text \<open>
  Claim C7. The claim gives every valid row the entry 1 + its row position, and 0 to a
  null or skipped row; for the validity bits 1,0,1,1,0 it gives the array 1,0,2,3,0.
  The pass stores \<^verbatim>\<open>nrows + t\<close>, the row position without the 1, in the slot of each valid
  row (the branch for a chunk without PRESENT stream stores \<^verbatim>\<open>nrows + t + 1\<close>): for the bits
  1,0,1,1,0 the slots of the three valid rows 0, 2, 3 hold 0, 2, 3, so the first valid row
  carries the mark of a skipped value and the other two the positions of the rows before
  them.  The ranks 1,0,2,3,0 are the \<open>nz_pos\<close> of the lanes; the two slots after the valid
  rows keep the prefix sums.
\<close>

theorem row_window_present_offsets_10110:
  "map_option (\<lambda>s'. map (row_ofs_plus1 s') [0, 1, 2, 3, 4])
     (row_window_present (\<lambda>r. r = 0 \<or> r = 2 \<or> r = 3) 0
        \<lparr>cur_row = 0, end_row = 5, max_vals = 0, nrows = 0, buffered_count = 0,
         buffered_pos = 0, row_ofs_plus1 = (\<lambda>_. 0)\<rparr>)
   = Some [0, 2, 3, 3, 3]"
proof -
  let ?vm = "\<lambda>r::nat. r = 0 \<or> r = 2 \<or> r = 3"
  let ?s = "\<lparr>cur_row = 0, end_row = 5, max_vals = 0, nrows = 0, buffered_count = 0,
      buffered_pos = 0, row_ofs_plus1 = (\<lambda>_. 0 :: u16)\<rparr>"
  have sets: "{j. j \<le> t \<and> rw_valid ?vm 0 ?s j} = {j. j \<le> t \<and> (j = 0 \<or> j = 2 \<or> j = 3)}" for t
    by (simp only: ex_valid)
  obtain rop where rop: "rw_positions ?vm 0 ?s = Some rop"
    and rank: "\<And>t. t < 5 \<Longrightarrow> unat (rop t) = card {j. j \<le> t \<and> rw_valid ?vm 0 ?s j}"
    using rw_positions_rank[of ?vm 0 ?s] unfolding ex_nrows by blast
  have u: "unat (rop 0) = 1" "unat (rop 1) = 1" "unat (rop 2) = 2" "unat (rop 3) = 3" "unat (rop 4) = 3"
    using rank[of 0] rank[of 1] rank[of 2] rank[of 3] rank[of 4]
    unfolding sets ex_ranks by simp_all
  have v: "rop 3 = 3" "rop 4 = 3"
    using word_of_unat[OF u(4)] word_of_unat[OF u(5)] by simp_all
  show ?thesis
    apply (simp add: row_window_present_def rop ex_nrows ex_valid upt_0_5 u v u32_def NTHREADS_def Let_def)
    done
qed

subsection \<open>String descriptors\<close>

text \<open>
  With dictionary encoding an index outside the dictionary gives the sentinel
  descriptor, and the only entry of the global dictionary ever read lies in the slice
  of the chunk.
\<close>

lemma string_desc_dictionary_guard:
  assumes "IS_DICTIONARY encoding_kind"
  shows "(unat val \<ge> chunk_dict_len \<longrightarrow>
            string_desc encoding_kind chunk_dict_len dictionary_start strm_dictionary strm_data
              strm_len_data global_dictionary val val2 count0
            = (\<lparr> str_ptr = 0xdeadbeef, str_count = 0 \<rparr>, []))
       \<and> (\<forall>i \<in> set (snd (string_desc encoding_kind chunk_dict_len dictionary_start strm_dictionary
              strm_data strm_len_data global_dictionary val val2 count0)).
            dictionary_start \<le> i \<and> i < dictionary_start + chunk_dict_len)"
  using assms by (auto simp: string_desc_def Let_def)

text \<open>
  C8. The claim: with direct encoding a data offset plus length beyond the DATA stream
  gives the sentinel descriptor. The guard compares the 32-bit sum. Take two strings of
  lengths \<open>0xFFFFFFF0\<close> and \<open>0x20\<close> in a DATA stream of \<open>0x100\<close> bytes at address
  \<open>0x10000\<close>: for the second one the prefix sum is \<open>0x10\<close>, the offset (with \<^verbatim>\<open>count\<close>
  holding the length \<open>0x20\<close>) is \<open>0xFFFFFFF0\<close>, the sum wraps to \<open>0x10\<close>, and the
  descriptor written points \<open>0xFFFFFFF0\<close> bytes into the stream.
\<close>

theorem string_desc_direct_wraps_past_guard:
  "string_desc DIRECT_V2 0 0 0 0x10000 0x100 (\<lambda>_. \<lparr> ent_pos = 0, ent_len = 0 \<rparr>) 0x20 0x10 0x20
     = (\<lparr> str_ptr = 0x10000 + 0xFFFFFFF0, str_count = 0x20 \<rparr>, [])"
  by (simp add: string_desc_def IS_DICTIONARY_def Let_def)

subsection \<open>Storing the validity bits of a batch\<close>

lemma bit_u32_less: "bit (w :: u32) n \<Longrightarrow> n < 32"
  using bit_imp_le_length[of w n] by simp

lemma bit_funnelshift_r:
  assumes "k < 32"
  shows "bit (funnelshift_r lo hi s) k =
     (if s mod 32 + k < 32 then bit lo (s mod 32 + k) else bit hi (s mod 32 + k - 32))"
  using assms
  apply (auto simp: funnelshift_r_def bit_simps dest: bit_u32_less)
  done

lemma divmod32:
  fixes n q x :: nat
  assumes "n = 32 * q + x" "x < 32"
  shows "n div 32 = q" "n mod 32 = x"
  using assms by simp_all

lemma bit_rle8_read_u32:
  assumes "k < 32"
  shows "bit (rle8_read_u32 vals b) k = src_bit vals (b + k)"
proof (cases "b mod 32 + k < 32")
  case True
  have "b + k = 32 * (b div 32) + (b mod 32 + k)"
    by simp
  from divmod32[OF this True] show ?thesis
    using assms True
    apply (simp add: rle8_read_u32_def bit_funnelshift_r src_bit_def)
    done
next
  case False
  have lt: "b mod 32 + k - 32 < 32"
    using assms False by (simp add: less_diff_conv) 
  have "b + k = 32 * (b div 32 + 1) + (b mod 32 + k - 32)"
    using False by simp
  from divmod32[OF this lt] show ?thesis
    using assms False
    apply (simp add: rle8_read_u32_def bit_funnelshift_r src_bit_def)
    done
qed

lemma popc_card: "popc x = card {k. k < 32 \<and> bit x k}"
proof -
  have "popc x = card {i. i < length [0..<32] \<and> bit x ([0..<32] ! i)}"
    unfolding popc_def by (rule length_filter_conv_card)
  also have "{i. i < length [0..<32] \<and> bit x ([0..<32] ! i)} = {k. k < 32 \<and> bit x k}"
    by (auto simp del: upt_Suc)
  finally show ?thesis .
qed

lemma nulls_lane_word_alt:
  assumes "startbit + t * 32 < 2 ^ 32"
  shows "nulls_lane_word vals startbit nbits t old =
     (if t * 32 + 32 \<le> nbits then
        (rle8_read_u32 vals (startbit + t * 32), popc (NOT (rle8_read_u32 vals (startbit + t * 32))))
      else if t * 32 < nbits then
        ((old AND NOT (mask (nbits - t * 32)))
           OR (rle8_read_u32 vals (startbit + t * 32) AND mask (nbits - t * 32)),
         popc (NOT (rle8_read_u32 vals (startbit + t * 32) AND mask (nbits - t * 32))
               AND mask (nbits - t * 32)))
      else (old, 0))"
  using assms by (simp add: nulls_lane_word_def Let_def mask_eq_exp_minus_1 u32_def)

lemma nulls_lane_word_bit:
  assumes "k < 32" "startbit + t * 32 < 2 ^ 32"
  shows "bit (fst (nulls_lane_word vals startbit nbits t old)) k =
     (if t * 32 + k < nbits then src_bit vals (startbit + t * 32 + k) else bit old k)"
  unfolding nulls_lane_word_alt[OF assms(2)]
  using assms(1)
  apply (auto simp: bit_simps bit_rle8_read_u32)
  done

lemma nulls_lane_word_count:
  assumes "startbit + t * 32 < 2 ^ 32"
  shows "snd (nulls_lane_word vals startbit nbits t old) =
     card {k. k < 32 \<and> t * 32 + k < nbits \<and> \<not> src_bit vals (startbit + t * 32 + k)}"
proof -
  have a: "{k. k < 32 \<and> bit (NOT (rle8_read_u32 vals (startbit + t * 32))) k}
      = {k. k < 32 \<and> t * 32 + k < nbits \<and> \<not> src_bit vals (startbit + t * 32 + k)}"
    if "t * 32 + 32 \<le> nbits"
    using that 
    apply (auto simp: bit_simps bit_rle8_read_u32)
    done
  have b: "{k. k < 32 \<and> bit (NOT (rle8_read_u32 vals (startbit + t * 32) AND mask (nbits - t * 32)) AND mask (nbits - t * 32)) k}
      = {k. k < 32 \<and> t * 32 + k < nbits \<and> \<not> src_bit vals (startbit + t * 32 + k)}"
    if "t * 32 < nbits"
    using that 
    apply (auto simp: bit_simps bit_rle8_read_u32)
    done
  have c: "{k. k < 32 \<and> t * 32 + k < nbits \<and> \<not> src_bit vals (startbit + t * 32 + k)} = {}"
    if "\<not> t * 32 < nbits"
    using that by auto
  show ?thesis
    unfolding nulls_lane_word_alt[OF assms] popc_card
    using a b c by (simp del: bit_not_iff bit_and_iff)
qed

lemma u32_mod_32: "u32 x mod 32 = x mod 32"
proof -
  have "(32::nat) dvd 2 ^ 32" by simp
  then show ?thesis unfolding u32_def by (rule mod_mod_cancel)
qed

lemma first_word_bit:
  assumes "k < 32" "b < 32" "n \<le> 32 - b"
  shows "bit ((old AND NOT (push_bit b (mask n))) OR (push_bit b (rle8_read_u32 vals startbit) AND push_bit b (mask n)) :: u32) k
     = (if b \<le> k \<and> k < b + n then src_bit vals (startbit + (k - b)) else bit old k)"
  using assms
  apply (auto simp: bit_simps bit_rle8_read_u32)
  done

lemma nulls_store_bits_word:
  assumes k: "k < 32" and b: "b < 32" and nb: "nbits \<le> NTHREADS * 32"
    and sb: "startbit + NTHREADS * 32 + 32 < 2 ^ 32"
  shows "bit (fst (nulls_store_bits (32 * w0 + b) nbits startbit vals vmap) w) k =
      (if 32 * w0 + b \<le> 32 * w + k \<and> 32 * w + k < 32 * w0 + b + nbits
       then src_bit vals (startbit + (32 * w + k - (32 * w0 + b))) else bit (vmap w) k)"
proof -
  have d: "(32 * w0 + b) div 32 = w0" "u32 (32 * w0 + b) mod 32 = b"
    using b by (simp_all add: u32_mod_32)
  show ?thesis
  proof (cases "b = 0")
    case True
    have sb': "startbit + t * 32 < 2 ^ 32" if "t < NTHREADS" for t
      using sb that by (simp add: NTHREADS_def)
    have r: "fst (nulls_store_bits (32 * w0 + b) nbits startbit vals vmap) w =
        (if w0 \<le> w \<and> w - w0 < NTHREADS then fst (nulls_lane_word vals startbit nbits (w - w0) (vmap w)) else vmap w)"
      unfolding nulls_store_bits_def d using True sb by (simp add: Let_def u32_def)
    show ?thesis
    proof (cases "w0 \<le> w \<and> w - w0 < NTHREADS")
      case t: True
      have e: "32 * w + k - 32 * w0 = (w - w0) * 32 + k"
        using t by (simp add: algebra_simps)
      show ?thesis
        unfolding r using t True k nulls_lane_word_bit[OF k sb'[of "w - w0"], of vals nbits "vmap w"]
        apply (auto simp: e add.assoc)
        done
    next
      case f: False
      then show ?thesis
        unfolding r using True nb k
        apply (auto simp: NTHREADS_def)
        done
    qed
  next
    case False
    define n where "n = min (32 - b) nbits"
    have sb1: "u32 (startbit + n) = startbit + n"
      using sb by (simp add: u32_def n_def NTHREADS_def)
    have sb': "startbit + n + t * 32 < 2 ^ 32" if "t < NTHREADS" for t
      using sb that by (simp add: NTHREADS_def n_def)
    have m: "(push_bit n 1 - 1 :: u32) = mask n"
      by (simp add: mask_eq_exp_minus_1)
    have r: "fst (nulls_store_bits (32 * w0 + b) nbits startbit vals vmap) w =
        (if w0 + 1 \<le> w \<and> w - (w0 + 1) < NTHREADS
         then fst (nulls_lane_word vals (startbit + n) (nbits - n) (w - (w0 + 1)) (vmap w))
         else if w = w0 then (vmap w0 AND NOT (push_bit b (mask n)))
                 OR (push_bit b (rle8_read_u32 vals startbit) AND push_bit b (mask n))
         else vmap w)"
      unfolding nulls_store_bits_def d using False
      by (auto simp add: Let_def n_def[symmetric] sb1 m simp del: push_bit_of_1)
    consider (lo) "w < w0" | (eq) "w = w0" | (hi) "w0 < w" "w - (w0 + 1) < NTHREADS" | (far) "w0 < w" "\<not> w - (w0 + 1) < NTHREADS"
      by linarith
    then show ?thesis
    proof cases
      case lo
      then show ?thesis unfolding r using k b by auto
    next
      case eq
      have "n \<le> 32 - b" by (simp add: n_def)
      from first_word_bit[OF k b this, of "vmap w0" vals startbit]
      show ?thesis unfolding r using eq k b 
        apply (auto simp: n_def)
        done
    next
      case hi
      show ?thesis
      proof (cases "n = 32 - b")
        case True
        have e: "32 * w + k - (32 * w0 + b) = n + (w - (w0 + 1)) * 32 + k"
          using hi True b by (simp add: algebra_simps)
        have nn: "n \<le> nbits" by (simp add: n_def)
        obtain t where wd: "w = t + Suc w0" using hi(1) by (metis Suc_leI le_add_diff_inverse2)
        have c: "((w - Suc w0) * 32 + k < nbits - n) = (32 * w + k < 32 * w0 + (b + nbits))"
          unfolding wd using True b nn by (simp add: algebra_simps) linarith
        have g: "32 * w0 + b \<le> 32 * w + k" using hi b by simp
        show ?thesis
          unfolding r using hi(1,2) nulls_lane_word_bit[OF k sb'[OF hi(2)], of vals "nbits - n" "vmap w"]
          by (simp add: e add.assoc c g)
      next
        case False
        then have nn: "n = nbits" "nbits < 32 - b" by (auto simp: n_def)
        have g: "\<not> 32 * w + k < 32 * w0 + b + nbits" using hi nn b by simp
        show ?thesis
          unfolding r using hi(1,2) nn(1) nulls_lane_word_bit[OF k sb'[OF hi(2)], of vals "nbits - n" "vmap w"]
          by (simp add: g)
      qed
    next
      case far
      have "n \<ge> 1 \<or> nbits = 0" using b False by (auto simp: n_def)
      then show ?thesis
        unfolding r using far k b nb
        apply (auto simp: NTHREADS_def n_def)
        done
    qed
  qed
qed

lemma card_shift:
  "card {j::nat. a \<le> j \<and> j < a + m \<and> P (j - a)} = card {j. j < m \<and> P j}"
proof -
  have "{j. a \<le> j \<and> j < a + m \<and> P (j - a)} = (\<lambda>j. a + j) ` {j. j < m \<and> P j}"
  proof (rule set_eqI, rule iffI)
    fix j assume "j \<in> {j. a \<le> j \<and> j < a + m \<and> P (j - a)}"
    then have "j - a \<in> {j. j < m \<and> P j}" "j = a + (j - a)" by auto
    then show "j \<in> (\<lambda>j. a + j) ` {j. j < m \<and> P j}" by (metis (lifting) image_eqI)
  next
    fix j assume "j \<in> (\<lambda>j. a + j) ` {j. j < m \<and> P j}"
    then show "j \<in> {j. a \<le> j \<and> j < a + m \<and> P (j - a)}" by auto
  qed
  moreover have "inj_on (\<lambda>j. a + j) {j. j < m \<and> P j}"
    by (simp add: inj_on_def)
  ultimately show ?thesis by (simp add: card_image)
qed

lemma lane_count_src:
  assumes "startbit + t * 32 < 2 ^ 32"
  shows "snd (nulls_lane_word vals startbit nbits t old)
     = card {j. t * 32 \<le> j \<and> j < t * 32 + 32 \<and> j < nbits \<and> \<not> src_bit vals (startbit + j)}"
proof -
  have "{j. t * 32 \<le> j \<and> j < t * 32 + 32 \<and> j < nbits \<and> \<not> src_bit vals (startbit + j)}
      = {j. t * 32 \<le> j \<and> j < t * 32 + 32 \<and> (t * 32 + (j - t * 32) < nbits \<and> \<not> src_bit vals (startbit + t * 32 + (j - t * 32)))}"
    by auto
  then show ?thesis
    unfolding nulls_lane_word_count[OF assms]
    using card_shift[of "t * 32" 32 "\<lambda>k. t * 32 + k < nbits \<and> \<not> src_bit vals (startbit + t * 32 + k)"]
    by simp
qed

lemma sum_lane_cards:
  "(\<Sum>t<T. card {j. t * 32 \<le> j \<and> j < t * 32 + 32 \<and> j < nb \<and> P j}) = card {j::nat. j < T * 32 \<and> j < nb \<and> P j}"
proof (induction T)
  case 0
  then show ?case by simp
next
  case (Suc T)
  have u: "{j. j < Suc T * 32 \<and> j < nb \<and> P j}
      = {j. j < T * 32 \<and> j < nb \<and> P j} \<union> {j. T * 32 \<le> j \<and> j < T * 32 + 32 \<and> j < nb \<and> P j}"
    by auto
  have i: "{j. j < T * 32 \<and> j < nb \<and> P j} \<inter> {j. T * 32 \<le> j \<and> j < T * 32 + 32 \<and> j < nb \<and> P j} = {}"
    by auto
  have "card {j. j < Suc T * 32 \<and> j < nb \<and> P j}
      = card {j. j < T * 32 \<and> j < nb \<and> P j} + card {j. T * 32 \<le> j \<and> j < T * 32 + 32 \<and> j < nb \<and> P j}"
    unfolding u by (rule card_Un_disjoint) (use i in auto)
  then show ?case using Suc by simp
qed

lemma first_word_count:
  assumes "b < 32" "n \<le> 32 - b"
  shows "popc (NOT (push_bit b (rle8_read_u32 vals startbit) AND push_bit b (mask n)) AND push_bit b (mask n))
     = card {j. j < n \<and> \<not> src_bit vals (startbit + j)}"
proof -
  have "{k. k < 32 \<and> bit (NOT (push_bit b (rle8_read_u32 vals startbit) AND push_bit b (mask n)) AND push_bit b (mask n) :: u32) k}
      = {k. b \<le> k \<and> k < b + n \<and> \<not> src_bit vals (startbit + (k - b))}"
    using assms
    apply (auto simp: bit_simps bit_rle8_read_u32)
    done
  then show ?thesis
    unfolding popc_card using card_shift[of b n "\<lambda>j. \<not> src_bit vals (startbit + j)"] by simp
qed

lemma card_le_bound: "card {j::nat. j < m \<and> P j} \<le> m"
proof -
  have "card {j. j < m \<and> P j} \<le> card {..<m}"
    by (intro card_mono) auto
  then show ?thesis by simp
qed

lemma nulls_store_bits_count:
  assumes b: "b < 32" and nb: "nbits \<le> NTHREADS * 32"
    and sb: "startbit + NTHREADS * 32 + 32 < 2 ^ 32"
  shows "snd (nulls_store_bits (32 * w0 + b) nbits startbit vals vmap)
     = card {j. j < nbits \<and> \<not> src_bit vals (startbit + j)}"
proof -
  define n where "n = (if b \<noteq> 0 then min (32 - b) nbits else 0)"
  have d: "(32 * w0 + b) div 32 = w0" "u32 (32 * w0 + b) mod 32 = b"
    using b by (simp_all add: u32_mod_32)
  have nn: "n \<le> nbits" "n \<le> 32 - b" by (simp_all add: n_def)
  have sb1: "u32 (startbit + n) = startbit + n"
    using sb nn b by (simp add: u32_def NTHREADS_def)
  have sb': "startbit + n + t * 32 < 2 ^ 32" if "t < NTHREADS" for t
    using sb that nn b by (simp add: NTHREADS_def)
  have m: "(push_bit n 1 - 1 :: u32) = mask n"
    by (simp add: mask_eq_exp_minus_1)
  have lanes: "(\<Sum>t<NTHREADS. snd (nulls_lane_word vals (startbit + n) (nbits - n) t (old t)))
      = card {j. n \<le> j \<and> j < nbits \<and> \<not> src_bit vals (startbit + j)}" for old
  proof -
    have "(\<Sum>t<NTHREADS. snd (nulls_lane_word vals (startbit + n) (nbits - n) t (old t)))
        = (\<Sum>t<NTHREADS. card {j. t * 32 \<le> j \<and> j < t * 32 + 32 \<and> j < nbits - n \<and> \<not> src_bit vals (startbit + n + j)})"
      by (intro sum.cong refl lane_count_src sb') simp
    also have "\<dots> = card {j. j < NTHREADS * 32 \<and> j < nbits - n \<and> \<not> src_bit vals (startbit + n + j)}"
      by (rule sum_lane_cards)
    also have "{j. j < NTHREADS * 32 \<and> j < nbits - n \<and> \<not> src_bit vals (startbit + n + j)}
        = {j. j < nbits - n \<and> \<not> src_bit vals (startbit + n + j)}"
      using nb by auto
    also have "card \<dots> = card {j. n \<le> j \<and> j < n + (nbits - n) \<and> \<not> src_bit vals (startbit + n + (j - n))}"
      by (rule card_shift[symmetric])
    also have "{j. n \<le> j \<and> j < n + (nbits - n) \<and> \<not> src_bit vals (startbit + n + (j - n))}
        = {j. n \<le> j \<and> j < nbits \<and> \<not> src_bit vals (startbit + j)}"
      using nn by auto
    finally show ?thesis .
  qed
  have first: "(if b \<noteq> 0 then popc (NOT (push_bit b (rle8_read_u32 vals startbit) AND push_bit b (mask n)) AND push_bit b (mask n)) else 0)
      = card {j. j < n \<and> \<not> src_bit vals (startbit + j)}"
    using first_word_count[OF b nn(2), of vals startbit] by (auto simp: n_def)
  have u: "{j. j < nbits \<and> \<not> src_bit vals (startbit + j)}
      = {j. j < n \<and> \<not> src_bit vals (startbit + j)} \<union> {j. n \<le> j \<and> j < nbits \<and> \<not> src_bit vals (startbit + j)}"
    using nn by auto
  have split: "card {j. j < nbits \<and> \<not> src_bit vals (startbit + j)}
      = card {j. j < n \<and> \<not> src_bit vals (startbit + j)} + card {j. n \<le> j \<and> j < nbits \<and> \<not> src_bit vals (startbit + j)}"
    unfolding u by (rule card_Un_disjoint) auto
  have small: "card {j. j < nbits \<and> \<not> src_bit vals (startbit + j)} < 2 ^ 32"
    using card_le_bound[of nbits "\<lambda>j. \<not> src_bit vals (startbit + j)"] nb by (simp add: NTHREADS_def)
  have "snd (nulls_store_bits (32 * w0 + b) nbits startbit vals vmap)
      = u32 ((if b \<noteq> 0 then popc (NOT (push_bit b (rle8_read_u32 vals startbit) AND push_bit b (mask n)) AND push_bit b (mask n)) else 0)
           + (\<Sum>t<NTHREADS. snd (nulls_lane_word vals (startbit + n) (nbits - n) t
                ((if b \<noteq> 0 then vmap(w0 := (vmap w0 AND NOT (push_bit b (mask n))) OR (push_bit b (rle8_read_u32 vals startbit) AND push_bit b (mask n))) else vmap)
                   ((if b \<noteq> 0 then w0 + 1 else w0) + t)))))"
  proof (cases "b = 0")
    case True
    then have n0: "n = 0" by (simp add: n_def)
    have "u32 startbit = startbit" using sb by (simp add: u32_def)
    then show ?thesis
      unfolding nulls_store_bits_def d using True by (simp add: Let_def n0)
  next
    case False
    then have n1: "min (32 - b) nbits = n" by (simp add: n_def)
    show ?thesis
      unfolding nulls_store_bits_def d using False
      by (simp add: Let_def n1 sb1 m del: push_bit_of_1)
  qed
  also have "\<dots> = u32 (card {j. j < nbits \<and> \<not> src_bit vals (startbit + j)})"
    unfolding first lanes split ..
  also have "\<dots> = card {j. j < nbits \<and> \<not> src_bit vals (startbit + j)}"
    using small by (simp add: u32_def)
  finally show ?thesis .
qed

lemma nulls_store_bits_spec:
  assumes nb: "nbits \<le> NTHREADS * 32" and sb: "startbit + NTHREADS * 32 + 32 < 2 ^ 32"
  shows "map_bit (fst (nulls_store_bits dst_pos nbits startbit vals vmap)) p =
      (if dst_pos \<le> p \<and> p < dst_pos + nbits then src_bit vals (startbit + (p - dst_pos))
       else map_bit vmap p)"
    and "snd (nulls_store_bits dst_pos nbits startbit vals vmap)
      = card {j. j < nbits \<and> \<not> src_bit vals (startbit + j)}"
proof -
  have dp: "32 * (dst_pos div 32) + dst_pos mod 32 = dst_pos"
    and pp: "32 * (p div 32) + p mod 32 = p"
    by simp_all
  have k: "p mod 32 < 32" and b: "dst_pos mod 32 < 32"
    by simp_all
  show "map_bit (fst (nulls_store_bits dst_pos nbits startbit vals vmap)) p =
      (if dst_pos \<le> p \<and> p < dst_pos + nbits then src_bit vals (startbit + (p - dst_pos))
       else map_bit vmap p)"
    using nulls_store_bits_word[OF k b nb sb, of "dst_pos div 32" vals vmap "p div 32"]
    unfolding dp pp map_bit_def .
  show "snd (nulls_store_bits dst_pos nbits startbit vals vmap)
      = card {j. j < nbits \<and> \<not> src_bit vals (startbit + j)}"
    using nulls_store_bits_count[OF b nb sb, of "dst_pos div 32" vals vmap]
    unfolding dp .
qed

lemma s64_small: "- (2 ^ 63) \<le> x \<Longrightarrow> x < 2 ^ 63 \<Longrightarrow> s64 x = x"
  by (simp add: s64_def)

lemma u64_small: "x < 2 ^ 64 \<Longrightarrow> u64 x = x"
  by (simp add: u64_def)

text \<open>
  One batch of \<open>batch_rows\<close> decoded validity bits, starting at absolute row \<open>row_in\<close>, is
  stored into the bitmap of a chunk under the window \<open>(first_row, max_num_rows)\<close>, in the
  numbering of the store (bit \<open>j\<close> of the value array is \<open>src_bit vals j\<close>): bit \<open>p\<close> of the
  bitmap, for \<open>p\<close> inside the window and inside the batch, becomes bit
  \<open>first_row + p - row_in\<close> of the value array; every other bit of the bitmap keeps its value;
  and the number added to \<^verbatim>\<open>null_count\<close> is the number of zero bits among those written.  The
  bounds are those of the kernel: a batch holds at most \<^verbatim>\<open>NTHREADS * 32\<close> rows, and the row
  numbers fit the 32-bit and 64-bit variables that hold them.
\<close>

lemma nulls_store_window:
  assumes ri: "row_in < 2 ^ 32" and br: "batch_rows \<le> NTHREADS * 32"
    and fr: "first_row < 2 ^ 62" and mr: "max_num_rows < 2 ^ 62"
  shows "(\<forall>p. map_bit (fst (nulls_store row_in batch_rows first_row max_num_rows vals vmap)) p
           = (if p < max_num_rows \<and> row_in \<le> first_row + p \<and> first_row + p < row_in + batch_rows
              then src_bit vals (first_row + p - row_in) else map_bit vmap p))
       \<and> snd (nulls_store row_in batch_rows first_row max_num_rows vals vmap)
           = card {p. p < max_num_rows \<and> row_in \<le> first_row + p \<and> first_row + p < row_in + batch_rows
                      \<and> \<not> src_bit vals (first_row + p - row_in)}"
proof -
  let ?W = "\<lambda>p. p < max_num_rows \<and> row_in \<le> first_row + p \<and> first_row + p < row_in + batch_rows"
  have br': "batch_rows \<le> 32768" using br by (simp add: NTHREADS_def)
  have u1: "u64 (row_in + batch_rows) = row_in + batch_rows"
    using ri br' by (intro u64_small) simp
  have u2: "u64 (first_row + max_num_rows) = first_row + max_num_rows"
    using fr mr by (intro u64_small) simp
  have s: "s64 (int row_in - int first_row) = int row_in - int first_row"
    using ri fr by (intro s64_small) simp_all
  show ?thesis
  proof (cases "row_in + batch_rows > first_row \<and> row_in < first_row + max_num_rows")
    case False
    then have e: "?W p = False" for p by auto
    have empt: "{p. p < max_num_rows \<and> row_in \<le> first_row + p \<and> first_row + p < row_in + batch_rows
                      \<and> \<not> src_bit vals (first_row + p - row_in)} = {}"
      using False by auto
    have "nulls_store row_in batch_rows first_row max_num_rows vals vmap = (vmap, 0)"
      by (simp only: nulls_store_def u1 u2 False if_False)
    then show ?thesis
      by (simp only: e empt) simp
  next
    case True
    show ?thesis
    proof (cases "first_row \<le> row_in")
      case ge: True
      define D where "D = row_in - first_row"
      define nbits where "nbits = min batch_rows (max_num_rows - D)"
      have Dlt: "D < max_num_rows" using True ge unfolding D_def by linarith
      have r: "nulls_store row_in batch_rows first_row max_num_rows vals vmap
          = nulls_store_bits D nbits 0 vals vmap"
      proof -
        have a: "max (int row_in - int first_row) 0 = int D" "min (int row_in - int first_row) 0 = 0"
          using ge by (simp_all add: D_def)
        have c: "u64 (D + batch_rows) = D + batch_rows"
          using ri br' by (intro u64_small) (simp add: D_def)
        have d: "u32 (max_num_rows - D) = max_num_rows - D" if "D + batch_rows > max_num_rows"
          using that br' by (simp add: u32_def)
        have m: "min D max_num_rows = D" using Dlt by simp
        show ?thesis
          apply (simp only: nulls_store_def u1 u2 s a Let_def)
          apply (simp only: True if_True)
          apply (simp add: c m)
          using d Dlt by (auto simp add: nbits_def min_def)
      qed
      have nb: "nbits \<le> NTHREADS * 32" using br by (simp add: nbits_def)
      have sb: "0 + NTHREADS * 32 + 32 < (2::nat) ^ 32" by (simp add: NTHREADS_def)
      have w: "(D \<le> p \<and> p < D + nbits) = ?W p" for p
        using ge Dlt by (auto simp: D_def nbits_def)
      have src: "0 + (p - D) = first_row + p - row_in" if "D \<le> p" for p
        using that ge by (simp add: D_def)
      have bits: "map_bit (fst (nulls_store_bits D nbits 0 vals vmap)) p
          = (if ?W p then src_bit vals (first_row + p - row_in) else map_bit vmap p)" for p
      proof (cases "D \<le> p \<and> p < D + nbits")
        case in_w: True
        then have "?W p" and "0 + (p - D) = first_row + p - row_in"
          using w[of p] src[of p] by simp_all
        then show ?thesis
          using nulls_store_bits_spec(1)[OF nb sb, of D vals vmap p] in_w by (simp del: add_0)
      next
        case out_w: False
        then have "\<not> ?W p" using w[of p] by simp
        then show ?thesis
          using nulls_store_bits_spec(1)[OF nb sb, of D vals vmap p] out_w by (auto simp del: add_0)
      qed
      have "{p. ?W p \<and> \<not> src_bit vals (first_row + p - row_in)}
          = {p. D \<le> p \<and> p < D + nbits \<and> \<not> src_bit vals (0 + (p - D))}"
      proof (rule set_eqI)
        fix p
        show "(p \<in> {p. ?W p \<and> \<not> src_bit vals (first_row + p - row_in)})
          = (p \<in> {p. D \<le> p \<and> p < D + nbits \<and> \<not> src_bit vals (0 + (p - D))})"
          using w[of p] src[of p] by (cases "D \<le> p") (auto simp del: add_0)
      qed
      then have cnt: "card {p. ?W p \<and> \<not> src_bit vals (first_row + p - row_in)}
          = card {j. j < nbits \<and> \<not> src_bit vals (0 + j)}"
        using card_shift[of D nbits "\<lambda>j. \<not> src_bit vals (0 + j)"] by simp
      show ?thesis
        unfolding r using bits nulls_store_bits_spec(2)[OF nb sb, of D vals vmap] cnt by simp
    next
      case lt: False
      define d where "d = first_row - row_in"
      define nbits where "nbits = min (batch_rows - d) max_num_rows"
      have dpos: "0 < d" "d < batch_rows" using True lt unfolding d_def by linarith+
      have r: "nulls_store row_in batch_rows first_row max_num_rows vals vmap
          = nulls_store_bits 0 nbits d vals vmap"
      proof -
        have a: "max (int row_in - int first_row) 0 = 0" "- min (int row_in - int first_row) 0 = int d"
          using lt by (simp_all add: d_def)
        have b: "nat (int d mod 4294967296) = d"
          using dpos br' by (simp add: nat_mod_distrib)
        have c: "u64 (batch_rows - d) = batch_rows - d"
          using br' by (intro u64_small) simp
        have e: "u32 max_num_rows = max_num_rows" if "batch_rows - d > max_num_rows"
          using that br' by (simp add: u32_def)
        have m: "min d batch_rows = d" using dpos by simp
        show ?thesis
          apply (simp only: nulls_store_def u1 u2 s a Let_def)
          apply (simp only: True if_True)
          apply (simp add: b c m)
          using e dpos by (auto simp add: nbits_def min_def)
      qed
      have nb: "nbits \<le> NTHREADS * 32" using br by (simp add: nbits_def)
      have sb: "d + NTHREADS * 32 + 32 < (2::nat) ^ 32" using dpos br' by (simp add: NTHREADS_def)
      have w: "(0 \<le> p \<and> p < 0 + nbits) = ?W p" for p
        using lt dpos by (auto simp: d_def nbits_def)
      have src: "d + (p - 0) = first_row + p - row_in" for p
        using lt by (simp add: d_def)
      have bits: "map_bit (fst (nulls_store_bits 0 nbits d vals vmap)) p
          = (if ?W p then src_bit vals (first_row + p - row_in) else map_bit vmap p)" for p
      proof (cases "0 \<le> p \<and> p < 0 + nbits")
        case in_w: True
        then have "?W p" and "d + (p - 0) = first_row + p - row_in"
          using w[of p] src[of p] by simp_all
        then show ?thesis
          using nulls_store_bits_spec(1)[OF nb sb, of 0 vals vmap p] in_w by (simp del: add_0)
      next
        case out_w: False
        then have "\<not> ?W p" using w[of p] by simp
        then show ?thesis
          using nulls_store_bits_spec(1)[OF nb sb, of 0 vals vmap p] out_w by (auto simp del: add_0)
      qed
      have "{p. ?W p \<and> \<not> src_bit vals (first_row + p - row_in)}
          = {j. j < nbits \<and> \<not> src_bit vals (d + j)}"
      proof (rule set_eqI)
        fix p
        show "(p \<in> {p. ?W p \<and> \<not> src_bit vals (first_row + p - row_in)})
          = (p \<in> {j. j < nbits \<and> \<not> src_bit vals (d + j)})"
          using w[of p] src[of p] by simp
      qed
      then show ?thesis
        unfolding r using bits nulls_store_bits_spec(2)[OF nb sb, of 0 vals vmap] by simp
    qed
  qed
qed


text \<open>
  A batch of 37 rows (two 32-bit words) and \<open>first_row = 5\<close>: the 32 bits 5..36 of the value
  array are written to the bits 0..31 of the bitmap, and all other bits of the bitmap are
  unchanged.
\<close>

lemma nulls_store_window_37:
  "\<forall>vals vmap.
     (\<forall>p. map_bit (fst (nulls_store 0 37 5 100 vals vmap)) p
        = (if p < 32 then src_bit vals (5 + p) else map_bit vmap p))
     \<and> snd (nulls_store 0 37 5 100 vals vmap) = card {p. p < 32 \<and> \<not> src_bit vals (5 + p)}"
proof (intro allI)
  fix vals vmap
  have c: "(p < (100::nat) \<and> p < 32 \<and> Q) = (p < 32 \<and> Q)" for p :: nat and Q
    by auto
  show "(\<forall>p. map_bit (fst (nulls_store 0 37 5 100 vals vmap)) p
        = (if p < 32 then src_bit vals (5 + p) else map_bit vmap p))
     \<and> snd (nulls_store 0 37 5 100 vals vmap) = card {p. p < 32 \<and> \<not> src_bit vals (5 + p)}"
    using nulls_store_window [of 0 37 5 100 vals vmap]
    by (simp add: NTHREADS_def c)
qed

subsection \<open>The rows of the PRESENT stream\<close>

text \<open>The PRESENT stream \<open>FF 80\<close>: one literal byte, \<open>0x80\<close>.\<close>

lemma p80_readbyte:
  "bytestream_readbyte (stream_of [0xff, 0x80]) p = bytes_mem [0xff, 0x80] (p mod 8192)"
  by (rule stream_of_readbyte) simp

lemma p80_len: "bs_len (stream_of [0xff, 0x80]) = 8"
  by (simp add: stream_of_len u32_def)

lemma p80_scan:
  "m = 1 \<Longrightarrow> byterle_scan (stream_of [0xff, 0x80]) m 8 (0, 0, 0, \<lparr>runs_loc = (\<lambda>_. 0), runs_pos = (\<lambda>_. 0)\<rparr>)
     = (1, 1, 2, \<lparr>runs_loc = (\<lambda>_. 0), runs_pos = (\<lambda>_. 0)\<rparr>)"
  apply (subst byterle_scan.simps)
  apply (simp add: p80_readbyte bytes_mem_def NWARPS_def u32_def Let_def)
  apply (subst byterle_scan.simps)
  apply (simp add: NWARPS_def fun_upd_idem)
  done


lemma p80_run:
  "byterle_run (stream_of [0xff, 0x80]\<lparr>bs_pos := q\<rparr>) 0 0 (\<lambda>_. 0) = (\<lambda>j. if j = 0 then 0x80 else 0)"
  by (auto simp add: byterle_run_def p80_readbyte bytes_mem_def u32_def Let_def fun_eq_iff)

lemma p80_Byte_RLE:
  "m = 1 \<Longrightarrow> fst (Byte_RLE (stream_of [0xff, 0x80]) \<lparr>runs_loc = (\<lambda>_. 0), runs_pos = (\<lambda>_. 0)\<rparr> (\<lambda>_. 0) m) = 1"
  "m = 1 \<Longrightarrow> fst (snd (Byte_RLE (stream_of [0xff, 0x80]) \<lparr>runs_loc = (\<lambda>_. 0), runs_pos = (\<lambda>_. 0)\<rparr> (\<lambda>_. 0) m))
     = (\<lambda>j. if j = 0 then 0x80 else 0)"
  by (simp_all add: Byte_RLE_def p80_len p80_scan BYTESTREAM_BFRSZ_def LOG2_BYTESTREAM_BFRSZ_def u32_def
      bytestream_flush_bytes_def p80_run Let_def)

lemma p80_batch:
  "fst (present_batch (stream_of [0xff, 0x80]) \<lparr>runs_loc = (\<lambda>_. 0), runs_pos = (\<lambda>_. 0)\<rparr> (\<lambda>_. 0) 8)
     = (\<lambda>j. if j = 0 then 0x80 else 0)"
  "fst (snd (present_batch (stream_of [0xff, 0x80]) \<lparr>runs_loc = (\<lambda>_. 0), runs_pos = (\<lambda>_. 0)\<rparr> (\<lambda>_. 0) 8)) = 8"
proof -
  have m: "u32 (8 + 7) div 8 = 1" by (simp add: u32_def)
  show "fst (present_batch (stream_of [0xff, 0x80]) \<lparr>runs_loc = (\<lambda>_. 0), runs_pos = (\<lambda>_. 0)\<rparr> (\<lambda>_. 0) 8)
     = (\<lambda>j. if j = 0 then 0x80 else 0)"
    unfolding present_batch_def Let_def m by (simp add: p80_Byte_RLE u32_def)
  show "fst (snd (present_batch (stream_of [0xff, 0x80]) \<lparr>runs_loc = (\<lambda>_. 0), runs_pos = (\<lambda>_. 0)\<rparr> (\<lambda>_. 0) 8)) = 8"
    unfolding present_batch_def Let_def m by (simp add: p80_Byte_RLE u32_def)
qed

lemma p80_decode:
  "present_decode [0xff, 0x80] row 8 = ((\<lambda>k. if k = 0 then 0x80 else 0), 8)"
  by (auto simp add: present_decode_def Let_def p80_batch vals_u32_def fun_eq_iff)


lemma upt_0_8: "[0..<8] = [0, 1, 2, 3, 4, 5, 6, 7]"
  by (simp add: upt_rec[of _ "numeral _"])

lemma bit_0x80: "bit (0x80 :: 'a::len word) p \<longleftrightarrow> p = 7 \<and> 7 < LENGTH('a)"
proof -
  have "(0x80 :: 'a word) = push_bit 7 1" by simp
  then show ?thesis by (simp only: bit_simps) auto
qed

lemma p80_store:
  fixes vmap :: "nat \<Rightarrow> u32"
  shows "map_bit (fst (nulls_store 0 8 0 8 (\<lambda>k. if k = 0 then 0x80 else 0) vmap)) p
       = (if p < 8 then p = 7 else map_bit vmap p)"
    and "snd (nulls_store 0 8 0 8 (\<lambda>k. if k = 0 then 0x80 else 0) vmap) = 7"
proof -
  let ?V = "\<lambda>k::nat. if k = 0 then 0x80 else (0::u32)"
  have sb: "src_bit ?V j = (j = 7)" if "j < 8" for j
    using that bit_0x80[of j, where ?'a = 32] by (simp add: src_bit_def)
  have w: "(\<forall>p. map_bit (fst (nulls_store 0 8 0 8 ?V vmap)) p
           = (if p < 8 \<and> 0 \<le> 0 + p \<and> 0 + p < 0 + 8 then src_bit ?V (0 + p - 0) else map_bit vmap p))
       \<and> snd (nulls_store 0 8 0 8 ?V vmap)
           = card {p. p < 8 \<and> 0 \<le> 0 + p \<and> 0 + p < 0 + 8 \<and> \<not> src_bit ?V (0 + p - 0)}"
    by (rule nulls_store_window) (simp_all add: NTHREADS_def)
  show "map_bit (fst (nulls_store 0 8 0 8 ?V vmap)) p = (if p < 8 then p = 7 else map_bit vmap p)"
    using w sb[of p] by simp
  have "{p. p < 8 \<and> 0 \<le> 0 + p \<and> 0 + p < 0 + 8 \<and> \<not> src_bit ?V (0 + p - 0)} = {0, 1, 2, 3, 4, 5, 6 :: nat}"
    using sb by auto
  then show "snd (nulls_store 0 8 0 8 ?V vmap) = 7"
    using w by simp
qed

lemma p80_nulls_batch:
  "nulls_batch (present_decode [0xff, 0x80]) 0 8
      (0, \<lparr>start_row = 0, num_rows = 8, null_count = 0, skip_count = 0\<rparr>, vmap, 0)
     = Some (8, \<lparr>start_row = 0, num_rows = 8, null_count = 0, skip_count = 0\<rparr>,
             fst (nulls_store 0 8 0 8 (\<lambda>k. if k = 0 then 0x80 else 0) vmap), 7)"
  by (simp add: nulls_batch_def p80_decode NTHREADS_def nulls_skip_def p80_store u32_small Let_def)

text \<open>
  Claim C3. The claim gives bit \<open>i\<close> of the bitmap, for a row inside the window, the validity
  bit of the row \<open>first_row + i\<close> that the PRESENT stream holds.  A chunk of 8 rows with the
  PRESENT stream \<open>FF 80\<close> and the window \<open>(0, 8)\<close>: the stream holds the one byte \<open>0x80\<close>, whose
  rows, numbered from the most significant bit as the rows of boolean RLE data are, are one
  valid row followed by seven nulls.  The kernel stores the bits of the byte from the least
  significant bit on: the bitmap has the bits 0 to 6 clear and bit 7 set, so row 7 is marked
  valid and row 0 null.  The count of nulls, 7, is right.
\<close>

theorem gpuDecodeNulls_present_bit_order:
  "map (bool_row (fst (present_batch (stream_of [0xff, 0x80])
          \<lparr>runs_loc = (\<lambda>_. 0), runs_pos = (\<lambda>_. 0)\<rparr> (\<lambda>_. 0) 8))) [0..<8]
     = [True, False, False, False, False, False, False, False]
   \<and> map_option (\<lambda>r. (map (map_bit (snd (snd r))) [0..<8], null_count (fst r 0)))
       (gpuDecodeNulls (\<lambda>c. \<lparr>start_row = 0, num_rows = 8, null_count = 0, skip_count = 0\<rparr>) 0
          (present_decode [0xff, 0x80]) 0 8 (\<lambda>w. 0))
     = Some ([False, False, False, False, False, False, False, True], 7)"
proof -
  have a: "map (bool_row (fst (present_batch (stream_of [0xff, 0x80])
          \<lparr>runs_loc = (\<lambda>_. 0), runs_pos = (\<lambda>_. 0)\<rparr> (\<lambda>_. 0) 8))) [0..<8]
     = [True, False, False, False, False, False, False, False]"
    by (simp add: p80_batch bool_row_def upt_0_8 bit_0x80)
  have b: "map_option (\<lambda>r. (map (map_bit (snd (snd r))) [0..<8], null_count (fst r 0)))
       (gpuDecodeNulls (\<lambda>c. \<lparr>start_row = 0, num_rows = 8, null_count = 0, skip_count = 0\<rparr>) 0
          (present_decode [0xff, 0x80]) 0 8 (\<lambda>w. 0))
     = Some ([False, False, False, False, False, False, False, True], 7)"
    unfolding gpuDecodeNulls_def
    apply (subst nulls_loop.simps)
    apply (simp add: p80_nulls_batch)
    apply (subst nulls_loop.simps)
    apply (simp add: upt_0_8 p80_store)
    done
  show ?thesis using a b by simp
qed

subsection \<open>Valid rows below the first output row\<close>

text \<open>
  Every lane of the first warp counts all the valid rows below \<^verbatim>\<open>first_row\<close>, so the sum over
  the warp is 32 times their number.
\<close>

lemma warp_sum_const: "warp_sum (\<lambda>t. c) t = 32 * c"
  by (simp add: warp_sum_def SHFL_XOR_def)

lemma popc_mask: "n \<le> 32 \<Longrightarrow> popc (mask n) = n"
proof -
  assume n: "n \<le> 32"
  have "{k. k < 32 \<and> bit (mask n :: u32) k} = {k. k < n}"
    using n by (auto simp add: bit_simps)
  then show ?thesis by (simp add: popc_card)
qed

lemma skip_loop_5: "skip_loop (\<lambda>t. - 1) 5 (0, 0) = Some 5"
proof -
  have m: "(push_bit 5 1 - 1 :: u32) = mask 5" by (simp add: mask_eq_exp_minus_1)
  have p: "popc (mask 5) = 5" by (rule popc_mask) simp
  show ?thesis
    apply (subst skip_loop.simps)
    apply (simp only: prod.case Let_def)
    apply (subst skip_loop.simps)
    apply (simp add: u32_def m p del: push_bit_of_1)
    done
qed

lemma nulls_skip_c0:
  "nulls_skip 0 8 5 (\<lambda>t. - 1) c = Some (c\<lparr>skip_count := u32 (skip_count c + 160)\<rparr>)"
  by (simp add: nulls_skip_def u32_small skip_loop_5 warp_sum_const)


text \<open>
  The kernel writes only \<^verbatim>\<open>null_count\<close> back to the array of descriptors: the field
  \<^verbatim>\<open>skip_count\<close> of every descriptor is after the kernel what it was before.
\<close>

lemma gpuDecodeNulls_keeps_skip_count:
  assumes "gpuDecodeNulls chunks chunk_id decode first_row max_num_rows vmap = Some r"
  shows "skip_count (fst r c) = skip_count (chunks c)"
  using assms by (auto simp add: gpuDecodeNulls_def split: option.splits)

lemma nulls_batch_8:
  "nulls_batch no_present 5 100 (0, \<lparr>start_row = 0, num_rows = 8, null_count = 0, skip_count = 0\<rparr>, vmap, 0)
     = Some (8, \<lparr>start_row = 0, num_rows = 8, null_count = 0, skip_count = 160\<rparr>,
             fst (nulls_store 0 8 5 100 (\<lambda>t. - 1) vmap), u32 (snd (nulls_store 0 8 5 100 (\<lambda>t. - 1) vmap)))"
  by (simp add: nulls_batch_def no_present_def NTHREADS_def nulls_skip_c0 u32_small Let_def)

text \<open>
  Claim C4. A chunk of 8 rows, all valid (no PRESENT stream), that starts at row 0, with
  \<open>first_row = 5\<close>: five valid rows lie below the first output row.  When the null-decoding
  kernel ends, the copy of the descriptor in its shared memory has \<^verbatim>\<open>skip_count = 160\<close>
  (32 times 5), the descriptor \<^verbatim>\<open>chunks[chunk_id]\<close> still has \<^verbatim>\<open>skip_count = 0\<close>, and the
  column-data kernel, which reads the descriptor, starts with \<^verbatim>\<open>max_vals = 0\<close> skipped slots.
\<close>

theorem gpuDecodeNulls_skip_count_example:
  "map_option (\<lambda>r. (skip_count (fst (snd r)), skip_count (fst r 0), data_first_max_vals (fst r) 0))
     (gpuDecodeNulls (\<lambda>c. \<lparr>start_row = 0, num_rows = 8, null_count = 0, skip_count = 0\<rparr>) 0
        no_present 5 100 (\<lambda>w. 0))
   = Some (160, 0, 0)"
  unfolding gpuDecodeNulls_def
  apply (subst nulls_loop.simps)
  apply (simp add: nulls_batch_8)
  apply (subst nulls_loop.simps)
  apply (simp add: data_first_max_vals_def)
  done

subsection \<open>Integer RLE version 2: delta runs\<close>

lemma rlev2_n_le: "rlev2_n bs pos0 \<le> 512"
proof -
  have a: "unat (bytestream_readbyte bs (pos0 + 1)) < 256"
    using unsigned_less[of "bytestream_readbyte bs (pos0 + 1)", where ?'a = nat] by simp
  have "unat (bytestream_readbyte bs pos0) mod 2 < 2" by simp
  then have b: "unat (bytestream_readbyte bs pos0) mod 2 * 256 \<le> 256" by simp
  show ?thesis unfolding rlev2_n_def using a b by linarith
qed

lemma rlev2_n_pos: "0 < rlev2_n bs pos0"
  by (simp add: rlev2_n_def)


lemma sum_split_01:
  fixes f :: "nat \<Rightarrow> 'a::comm_monoid_add"
  assumes "1 \<le> k"
  shows "(\<Sum>i\<le>k. f i) = f 0 + f 1 + (\<Sum>i = 2..k. f i)"
  using assms
proof (induction k rule: nat_induct_at_least)
  case base
  show ?case by simp
next
  case (Suc k)
  have "(\<Sum>i = 2..Suc k. f i) = (\<Sum>i = 2..k. f i) + f (Suc k)"
    using Suc.hyps by (simp add: sum.cl_ivl_Suc)
  then show ?case
    using Suc.IH by (simp add: add.assoc)
qed

lemma abs32_signed: "(if d <s 0 then - abs32 d else abs32 d) = d"
  by (simp add: abs32_def)

text \<open>
  Every slot of a delta run holds the base value plus the sum of the signed offsets of the
  slots up to it; the slots outside the run are unchanged.
\<close>

lemma rlev2_delta_run_sum:
  assumes mode: "rlev2_mode bs pos0 = 3"
  shows "\<exists>out. rlev2_delta_run bs pos0 base vals = Some out
     \<and> (\<forall>k < rlev2_n bs pos0. out (base + k) =
           fst (snd (rlev2_delta_hdr bs pos0))
           + (\<Sum>i\<le>k. rlev2_delta_ofs bs (fst (rlev2_delta_hdr bs pos0)) (rlev2_w bs pos0)
                        (snd (snd (rlev2_delta_hdr bs pos0))) i))
     \<and> (\<forall>x. x < base \<or> base + rlev2_n bs pos0 \<le> x \<longrightarrow> out x = vals x)"
proof -
  define n where "n = rlev2_n bs pos0"
  define ofs where "ofs = rlev2_delta_ofs bs (fst (rlev2_delta_hdr bs pos0)) (rlev2_w bs pos0)
                        (snd (snd (rlev2_delta_hdr bs pos0)))"
  define V where "V = (\<lambda>j. if base \<le> base + j \<and> base + j < base + n then ofs (base + j - base) else vals (base + j))"
  have nn: "n \<le> NTHREADS" using rlev2_n_le[of bs pos0] by (simp add: n_def NTHREADS_def)
  obtain sums where s: "l2p_loop 1 n V = Some sums" and p: "\<forall>t<n. sums t = (\<Sum>j\<le>t. V j)"
    using lengths_to_positions_prefix_sum[OF nn, of V] by (auto simp: lengths_to_positions_def)
  have v: "(\<Sum>j\<le>t. V j) = (\<Sum>j\<le>t. ofs j)" if "t < n" for t
    using that by (intro sum.cong) (auto simp: V_def)
  have r: "rlev2_delta_run bs pos0 base vals
      = Some (\<lambda>x. if base \<le> x \<and> x < base + n then sums (x - base) + fst (snd (rlev2_delta_hdr bs pos0)) else vals x)"
    using s[unfolded V_def ofs_def n_def] mode by (simp add: rlev2_delta_run_def Let_def n_def)
  show ?thesis
    unfolding r using p v by (auto simp: n_def ofs_def)
qed

text \<open>
  The values of a run in delta mode with base value \<open>b\<close> and delta \<open>d\<close> as the header gives
  them (arithmetic modulo \<open>2 ^ 32\<close>): the first value is \<open>b\<close>, the second is \<open>b + d\<close>, and for a
  bit width above 1 the value \<open>k \<ge> 2\<close> is \<open>b + d\<close> plus the sum of the first \<open>k - 1\<close> bit-packed
  magnitudes, the sum negated when \<open>d\<close> is negative as an \<^verbatim>\<open>int32_t\<close>.
\<close>

lemma rlev2_delta_run_values:
  assumes mode: "rlev2_mode bs pos0 = 3"
    and hdr: "rlev2_delta_hdr bs pos0 = (pos, b, d)"
    and k: "k < rlev2_n bs pos0"
    and w: "k < 2 \<or> 1 < rlev2_w bs pos0"
  shows "\<exists>out. rlev2_delta_run bs pos0 base vals = Some out \<and>
           out (base + k) =
             (if k = 0 then b
              else b + d +
                (if d <s 0
                 then - (\<Sum>i = 2..k. bytestream_readbits bs (pos * 8 + (i - 2) * rlev2_w bs pos0) (rlev2_w bs pos0))
                 else (\<Sum>i = 2..k. bytestream_readbits bs (pos * 8 + (i - 2) * rlev2_w bs pos0) (rlev2_w bs pos0))))"
proof -
  let ?w = "rlev2_w bs pos0"
  let ?M = "\<lambda>i. bytestream_readbits bs (pos * 8 + (i - 2) * ?w) ?w"
  let ?ofs = "rlev2_delta_ofs bs pos ?w d"
  obtain out where r: "rlev2_delta_run bs pos0 base vals = Some out"
    and o: "out (base + k) = b + (\<Sum>i\<le>k. ?ofs i)"
    using rlev2_delta_run_sum[OF mode, of base vals] k by (auto simp: hdr)
  have o0: "?ofs 0 = 0" by (simp add: rlev2_delta_ofs_def)
  have o1: "?ofs 1 = d" by (simp add: rlev2_delta_ofs_def abs32_signed)
  show ?thesis
  proof (cases "k = 0")
    case True
    then show ?thesis using r o o0 by simp
  next
    case False
    then have k1: "1 \<le> k" by simp
    have m: "(\<Sum>i = 2..k. ?ofs i) = (if d <s 0 then - (\<Sum>i = 2..k. ?M i) else (\<Sum>i = 2..k. ?M i))"
    proof (cases "k < 2")
      case True
      then show ?thesis by simp
    next
      case False
      then have w1: "1 < ?w" using w by simp
      have "(\<Sum>i = 2..k. ?ofs i) = (\<Sum>i = 2..k. if d <s 0 then - ?M i else ?M i)"
        using w1 by (intro sum.cong) (auto simp: rlev2_delta_ofs_def)
      also have "\<dots> = (if d <s 0 then - (\<Sum>i = 2..k. ?M i) else (\<Sum>i = 2..k. ?M i))"
        by (simp add: sum_negf)
      finally show ?thesis .
    qed
    have "out (base + k) = b + d + (\<Sum>i = 2..k. ?ofs i)"
      using o sum_split_01[OF k1, of ?ofs] o0 o1 by (simp add: add.assoc)
    then show ?thesis using r False m by simp
  qed
qed


lemma readbits_index:
  assumes "bitpos < 65536"
  shows "(bitpos AND ((BYTESTREAM_BFRSZ - 1) * 8)) div 32 = bitpos div 32"
proof -
  have c: "(BYTESTREAM_BFRSZ - 1) * 8 = push_bit 3 (mask 13 :: nat)"
    by (simp add: BYTESTREAM_BFRSZ_def LOG2_BYTESTREAM_BFRSZ_def mask_eq_exp_minus_1 push_bit_eq_mult)
  have b: "\<not> bit bitpos m" if "16 \<le> m" for m
  proof -
    have "bitpos < 2 ^ m"
      using assms that power_increasing[of 16 m "2::nat"] by simp
    then show ?thesis by (simp add: bit_iff_odd)
  qed
  have "drop_bit 5 (bitpos AND push_bit 3 (mask 13)) = drop_bit 5 bitpos"
  proof (rule bit_eqI)
    fix m
    show "bit (drop_bit 5 (bitpos AND push_bit 3 (mask 13))) m = bit (drop_bit 5 bitpos) m"
    proof -
      have "m < 11" if "bit bitpos (5 + m)"
      proof (rule ccontr)
        assume "\<not> m < 11"
        then have "16 \<le> 5 + m" by simp
        then show False using b that by blast
      qed
      then show ?thesis by (auto simp add: bit_simps)
    qed
  qed
  then show ?thesis unfolding c by (simp add: drop_bit_eq_div)
qed

text \<open>
  The stream \<open>C6 09 02 02 22 42 42 46 00\<close>: the example of a delta run in the ORC format,
  followed by one more byte.  The run has ten values with base 2, the delta 1 (the signed
  varint \<open>02\<close>) and eight 4-bit differences 2, 2, 4, 2, 4, 2, 4, 6; it encodes
  2, 3, 5, 7, 11, 13, 17, 19, 23, 29.
\<close>

lemma primes_readbyte:
  "bytestream_readbyte (stream_of [0xc6, 0x09, 0x02, 0x02, 0x22, 0x42, 0x42, 0x46, 0x00]) p
     = bytes_mem [0xc6, 0x09, 0x02, 0x02, 0x22, 0x42, 0x42, 0x46, 0x00] (p mod 8192)"
  by (rule stream_of_readbyte) simp

lemma primes_buf_u32:
  "k < 2048 \<Longrightarrow> buf_u32 (stream_of [0xc6, 0x09, 0x02, 0x02, 0x22, 0x42, 0x42, 0x46, 0x00]) k =
     ucast (bytes_mem [0xc6, 0x09, 0x02, 0x02, 0x22, 0x42, 0x42, 0x46, 0x00] (4 * k))
     OR push_bit 8 (ucast (bytes_mem [0xc6, 0x09, 0x02, 0x02, 0x22, 0x42, 0x42, 0x46, 0x00] (4 * k + 1)))
     OR push_bit 16 (ucast (bytes_mem [0xc6, 0x09, 0x02, 0x02, 0x22, 0x42, 0x42, 0x46, 0x00] (4 * k + 2)))
     OR push_bit 24 (ucast (bytes_mem [0xc6, 0x09, 0x02, 0x02, 0x22, 0x42, 0x42, 0x46, 0x00] (4 * k + 3)))"
  by (rule stream_of_buf_u32) simp_all

lemma primes_mode: "rlev2_mode (stream_of [0xc6, 0x09, 0x02, 0x02, 0x22, 0x42, 0x42, 0x46, 0x00]) 0 = 3"
  by (simp add: rlev2_mode_def primes_readbyte bytes_mem_def)

lemma primes_w: "rlev2_w (stream_of [0xc6, 0x09, 0x02, 0x02, 0x22, 0x42, 0x42, 0x46, 0x00]) 0 = 4"
  by (simp add: rlev2_w_def kRLEv2_W_def primes_readbyte bytes_mem_def)

lemma primes_n: "rlev2_n (stream_of [0xc6, 0x09, 0x02, 0x02, 0x22, 0x42, 0x42, 0x46, 0x00]) 0 = 10"
  by (simp add: rlev2_n_def primes_readbyte bytes_mem_def)

lemma primes_hdr:
  "rlev2_delta_hdr (stream_of [0xc6, 0x09, 0x02, 0x02, 0x22, 0x42, 0x42, 0x46, 0x00]) 0 = (4, 2, 2)"
  by (simp add: rlev2_delta_hdr_def decode_varint_u32_def decode_varint_def
      primes_readbyte bytes_mem_def Let_def)

lemma primes_word1: "k = 1 \<Longrightarrow> byte_perm_0123 (buf_u32 (stream_of [0xc6, 0x09, 0x02, 0x02, 0x22, 0x42, 0x42, 0x46, 0x00]) k) = 0x22424246"
  by (simp add: primes_buf_u32 bytes_mem_def byte_perm_0123_def)

lemma primes_word2: "k = 2 \<Longrightarrow> byte_perm_0123 (buf_u32 (stream_of [0xc6, 0x09, 0x02, 0x02, 0x22, 0x42, 0x42, 0x46, 0x00]) k) = 0"
  by (simp add: primes_buf_u32 bytes_mem_def byte_perm_0123_def)

lemma bytestream_readbits_alt:
  assumes b: "bitpos + 32 < 65536" and n: "numbits \<le> 32"
  shows "bytestream_readbits bs bitpos numbits =
     drop_bit (32 - numbits)
       (funnelshift_l (byte_perm_0123 (buf_u32 bs (bitpos div 32 + 1)))
          (byte_perm_0123 (buf_u32 bs (bitpos div 32))) (bitpos mod 32))"
proof -
  have i1: "(bitpos AND ((BYTESTREAM_BFRSZ - 1) * 8)) div 32 = bitpos div 32"
    using b by (intro readbits_index) simp
  have i2: "((bitpos + 32) AND ((BYTESTREAM_BFRSZ - 1) * 8)) div 32 = bitpos div 32 + 1"
    using b readbits_index[of "bitpos + 32"] by simp
  have s: "nat ((32 - int numbits) mod 2 ^ 32) = 32 - numbits"
    using n by (simp add: nat_diff_distrib)
  show ?thesis
    unfolding bytestream_readbits_def Let_def i1 i2 s ..
qed

lemma primes_readbits:
  "bytestream_readbits (stream_of [0xc6, 0x09, 0x02, 0x02, 0x22, 0x42, 0x42, 0x46, 0x00]) 32 4 = 2"
  "bytestream_readbits (stream_of [0xc6, 0x09, 0x02, 0x02, 0x22, 0x42, 0x42, 0x46, 0x00]) 36 4 = 2"
  "bytestream_readbits (stream_of [0xc6, 0x09, 0x02, 0x02, 0x22, 0x42, 0x42, 0x46, 0x00]) 40 4 = 4"
  "bytestream_readbits (stream_of [0xc6, 0x09, 0x02, 0x02, 0x22, 0x42, 0x42, 0x46, 0x00]) 44 4 = 2"
  "bytestream_readbits (stream_of [0xc6, 0x09, 0x02, 0x02, 0x22, 0x42, 0x42, 0x46, 0x00]) 48 4 = 4"
  "bytestream_readbits (stream_of [0xc6, 0x09, 0x02, 0x02, 0x22, 0x42, 0x42, 0x46, 0x00]) 52 4 = 2"
  "bytestream_readbits (stream_of [0xc6, 0x09, 0x02, 0x02, 0x22, 0x42, 0x42, 0x46, 0x00]) 56 4 = 4"
  "bytestream_readbits (stream_of [0xc6, 0x09, 0x02, 0x02, 0x22, 0x42, 0x42, 0x46, 0x00]) 60 4 = 6"
  by (simp_all add: bytestream_readbits_alt primes_word1 primes_word2 funnelshift_l_def)

lemma readbyte_pos_upd_fun: "bytestream_readbyte (bs\<lparr>bs_pos := q\<rparr>) = bytestream_readbyte bs"
  by (simp add: fun_eq_iff)

lemma buf_u32_pos_upd_fun: "buf_u32 (bs\<lparr>bs_pos := q\<rparr>) = buf_u32 bs"
  by (simp add: fun_eq_iff buf_u32_def)

lemma rlev2_delta_run_pos_upd [simp]:
  "rlev2_delta_run (bs\<lparr>bs_pos := q\<rparr>) pos0 base vals = rlev2_delta_run bs pos0 base vals"
  unfolding rlev2_delta_run_def rlev2_w_def rlev2_n_def rlev2_mode_def rlev2_delta_hdr_def
    decode_varint_u32_def decode_varint_def rlev2_delta_ofs_def bytestream_readbits_def
    readbyte_pos_upd_fun buf_u32_pos_upd_fun ..

lemma sum_atMost_step:
  fixes f :: "nat \<Rightarrow> u32"
  shows "k = Suc j \<Longrightarrow> (\<Sum>i\<le>k. f i) = (\<Sum>i\<le>j. f i) + f k"
  by simp

lemma primes_len: "bs_len (stream_of [0xc6, 0x09, 0x02, 0x02, 0x22, 0x42, 0x42, 0x46, 0x00]) = 16"
  by (simp add: stream_of_len u32_def)

lemma primes_varint_length:
  "1 < p \<Longrightarrow> p < 4 \<Longrightarrow> varint_length False (stream_of [0xc6, 0x09, 0x02, 0x02, 0x22, 0x42, 0x42, 0x46, 0x00]) p = 1"
  by (auto simp add: varint_length_def primes_readbyte bytes_mem_def nth_Cons split: nat.split)

lemma primes_scan:
  "m = 10 \<Longrightarrow> rlev2_scan False (stream_of [0xc6, 0x09, 0x02, 0x02, 0x22, 0x42, 0x42, 0x46, 0x00]) m 16 (0, 0, 0, (\<lambda>_. 0), (\<lambda>_. 0))
     = Some (10, 1, 9, (\<lambda>_. 0), (\<lambda>_. 0))"
  apply (subst rlev2_scan.simps)
  apply (simp add: primes_readbyte bytes_mem_def primes_varint_length kRLEv2_W_def u32_def Let_def)
  apply (subst rlev2_scan.simps)
  apply (simp add: fun_upd_idem)
  done

lemma primes_ofs:
  "rlev2_delta_ofs (stream_of [0xc6, 0x09, 0x02, 0x02, 0x22, 0x42, 0x42, 0x46, 0x00]) 4 4 2 0 = 0"
  "rlev2_delta_ofs (stream_of [0xc6, 0x09, 0x02, 0x02, 0x22, 0x42, 0x42, 0x46, 0x00]) 4 4 2 1 = 2"
  "rlev2_delta_ofs (stream_of [0xc6, 0x09, 0x02, 0x02, 0x22, 0x42, 0x42, 0x46, 0x00]) 4 4 2 2 = 2"
  "rlev2_delta_ofs (stream_of [0xc6, 0x09, 0x02, 0x02, 0x22, 0x42, 0x42, 0x46, 0x00]) 4 4 2 3 = 2"
  "rlev2_delta_ofs (stream_of [0xc6, 0x09, 0x02, 0x02, 0x22, 0x42, 0x42, 0x46, 0x00]) 4 4 2 4 = 4"
  "rlev2_delta_ofs (stream_of [0xc6, 0x09, 0x02, 0x02, 0x22, 0x42, 0x42, 0x46, 0x00]) 4 4 2 5 = 2"
  "rlev2_delta_ofs (stream_of [0xc6, 0x09, 0x02, 0x02, 0x22, 0x42, 0x42, 0x46, 0x00]) 4 4 2 6 = 4"
  "rlev2_delta_ofs (stream_of [0xc6, 0x09, 0x02, 0x02, 0x22, 0x42, 0x42, 0x46, 0x00]) 4 4 2 7 = 2"
  "rlev2_delta_ofs (stream_of [0xc6, 0x09, 0x02, 0x02, 0x22, 0x42, 0x42, 0x46, 0x00]) 4 4 2 8 = 4"
  "rlev2_delta_ofs (stream_of [0xc6, 0x09, 0x02, 0x02, 0x22, 0x42, 0x42, 0x46, 0x00]) 4 4 2 9 = 6"
proof -
  have p: "\<not> (2 :: u32) <s 0" by (simp add: word_sless_alt)
  show "rlev2_delta_ofs (stream_of [0xc6, 0x09, 0x02, 0x02, 0x22, 0x42, 0x42, 0x46, 0x00]) 4 4 2 0 = 0"
    "rlev2_delta_ofs (stream_of [0xc6, 0x09, 0x02, 0x02, 0x22, 0x42, 0x42, 0x46, 0x00]) 4 4 2 1 = 2"
    "rlev2_delta_ofs (stream_of [0xc6, 0x09, 0x02, 0x02, 0x22, 0x42, 0x42, 0x46, 0x00]) 4 4 2 2 = 2"
    "rlev2_delta_ofs (stream_of [0xc6, 0x09, 0x02, 0x02, 0x22, 0x42, 0x42, 0x46, 0x00]) 4 4 2 3 = 2"
    "rlev2_delta_ofs (stream_of [0xc6, 0x09, 0x02, 0x02, 0x22, 0x42, 0x42, 0x46, 0x00]) 4 4 2 4 = 4"
    "rlev2_delta_ofs (stream_of [0xc6, 0x09, 0x02, 0x02, 0x22, 0x42, 0x42, 0x46, 0x00]) 4 4 2 5 = 2"
    "rlev2_delta_ofs (stream_of [0xc6, 0x09, 0x02, 0x02, 0x22, 0x42, 0x42, 0x46, 0x00]) 4 4 2 6 = 4"
    "rlev2_delta_ofs (stream_of [0xc6, 0x09, 0x02, 0x02, 0x22, 0x42, 0x42, 0x46, 0x00]) 4 4 2 7 = 2"
    "rlev2_delta_ofs (stream_of [0xc6, 0x09, 0x02, 0x02, 0x22, 0x42, 0x42, 0x46, 0x00]) 4 4 2 8 = 4"
    "rlev2_delta_ofs (stream_of [0xc6, 0x09, 0x02, 0x02, 0x22, 0x42, 0x42, 0x46, 0x00]) 4 4 2 9 = 6"
    by (simp_all add: rlev2_delta_ofs_def abs32_def p primes_readbits)
qed

text \<open>The warp of the run: every value after the first is one too large.\<close>

lemma primes_run:
  "\<exists>out. rlev2_delta_run (stream_of [0xc6, 0x09, 0x02, 0x02, 0x22, 0x42, 0x42, 0x46, 0x00]) 0 0 (\<lambda>x. 0) = Some out
     \<and> map out [0, 1, 2, 3, 4, 5, 6, 7, 8, 9] = [2, 4, 6, 8, 12, 14, 18, 20, 24, 30]"
proof -
  obtain out where r: "rlev2_delta_run (stream_of [0xc6, 0x09, 0x02, 0x02, 0x22, 0x42, 0x42, 0x46, 0x00]) 0 0 (\<lambda>x. 0) = Some out"
    and o: "\<And>k. k < 10 \<Longrightarrow> out k = 2 + (\<Sum>i\<le>k. rlev2_delta_ofs (stream_of [0xc6, 0x09, 0x02, 0x02, 0x22, 0x42, 0x42, 0x46, 0x00]) 4 4 2 i)"
    using rlev2_delta_run_sum[OF primes_mode, of 0 "\<lambda>x. 0"]
    by (auto simp: primes_hdr primes_n primes_w)
  have o0: "out 0 = 2" using o[of 0] by (simp add: primes_ofs)
  have o1: "out 1 = 4"
    using o[of 1] o[of 0] o0 sum_atMost_step[of 1 0 "rlev2_delta_ofs (stream_of [0xc6, 0x09, 0x02, 0x02, 0x22, 0x42, 0x42, 0x46, 0x00]) 4 4 2"] primes_ofs
    by simp
  have o2: "out 2 = 6"
    using o[of 2] o[of 1] o1 sum_atMost_step[of 2 1 "rlev2_delta_ofs (stream_of [0xc6, 0x09, 0x02, 0x02, 0x22, 0x42, 0x42, 0x46, 0x00]) 4 4 2"] primes_ofs
    by simp
  have o3: "out 3 = 8"
    using o[of 3] o[of 2] o2 sum_atMost_step[of 3 2 "rlev2_delta_ofs (stream_of [0xc6, 0x09, 0x02, 0x02, 0x22, 0x42, 0x42, 0x46, 0x00]) 4 4 2"] primes_ofs
    by simp
  have o4: "out 4 = 12"
    using o[of 4] o[of 3] o3 sum_atMost_step[of 4 3 "rlev2_delta_ofs (stream_of [0xc6, 0x09, 0x02, 0x02, 0x22, 0x42, 0x42, 0x46, 0x00]) 4 4 2"] primes_ofs
    by simp
  have o5: "out 5 = 14"
    using o[of 5] o[of 4] o4 sum_atMost_step[of 5 4 "rlev2_delta_ofs (stream_of [0xc6, 0x09, 0x02, 0x02, 0x22, 0x42, 0x42, 0x46, 0x00]) 4 4 2"] primes_ofs
    by simp
  have o6: "out 6 = 18"
    using o[of 6] o[of 5] o5 sum_atMost_step[of 6 5 "rlev2_delta_ofs (stream_of [0xc6, 0x09, 0x02, 0x02, 0x22, 0x42, 0x42, 0x46, 0x00]) 4 4 2"] primes_ofs
    by simp
  have o7: "out 7 = 20"
    using o[of 7] o[of 6] o6 sum_atMost_step[of 7 6 "rlev2_delta_ofs (stream_of [0xc6, 0x09, 0x02, 0x02, 0x22, 0x42, 0x42, 0x46, 0x00]) 4 4 2"] primes_ofs
    by simp
  have o8: "out 8 = 24"
    using o[of 8] o[of 7] o7 sum_atMost_step[of 8 7 "rlev2_delta_ofs (stream_of [0xc6, 0x09, 0x02, 0x02, 0x22, 0x42, 0x42, 0x46, 0x00]) 4 4 2"] primes_ofs
    by simp
  have o9: "out 9 = 30"
    using o[of 9] o[of 8] o8 sum_atMost_step[of 9 8 "rlev2_delta_ofs (stream_of [0xc6, 0x09, 0x02, 0x02, 0x22, 0x42, 0x42, 0x46, 0x00]) 4 4 2"] primes_ofs
    by simp
  show ?thesis using r o0 o1 o2 o3 o4 o5 o6 o7 o8 o9 by simp
qed


lemma upt_0_10: "[0..<10] = [0, 1, 2, 3, 4, 5, 6, 7, 8, 9]"
  by (simp add: upt_rec[of _ "numeral _"])

text \<open>
  Claim C2. The claim gives a delta run with base \<open>b\<close> and signed varint delta \<open>d\<close> the values
  \<open>b\<close>, \<open>b + |d|\<close> and then the running sums of the magnitudes.  For the run above, \<open>b = 2\<close> and
  \<open>d = 1\<close>, that is 2, 3, 5, 7, 11, 13, 17, 19, 23, 29.  The call of \<^verbatim>\<open>Integer_RLEv2<uint32_t>\<close>
  for ten values reads the delta without the zig-zag step, as 2, and returns
  2, 4, 6, 8, 12, 14, 18, 20, 24, 30.
\<close>

theorem Integer_RLEv2_unsigned_delta:
  "rlev2_values (Integer_RLEv2_u32 (stream_of [0xc6, 0x09, 0x02, 0x02, 0x22, 0x42, 0x42, 0x46, 0x00]) (\<lambda>_. 0) (\<lambda>_. 0) 10)
     = Some (10, [2, 4, 6, 8, 12, 14, 18, 20, 24, 30])"
proof -
  obtain out where rv: "rlev2_delta_run (stream_of [0xc6, 0x09, 0x02, 0x02, 0x22, 0x42, 0x42, 0x46, 0x00]) 0 0 (\<lambda>x. 0) = Some out
     \<and> map out [0, 1, 2, 3, 4, 5, 6, 7, 8, 9] = [2, 4, 6, 8, 12, 14, 18, 20, 24, 30]"
    using primes_run ..
  have r: "rlev2_delta_run (stream_of [0xc6, 0x09, 0x02, 0x02, 0x22, 0x42, 0x42, 0x46, 0x00]) 0 0 (\<lambda>x. 0) = Some out"
    and v: "map out [0, 1, 2, 3, 4, 5, 6, 7, 8, 9] = [2, 4, 6, 8, 12, 14, 18, 20, 24, 30]"
    using rv by (rule conjunct1, rule conjunct2)
  have f: "fold (\<lambda>run r. Option.bind r (\<lambda>v. rlev2_delta_run (stream_of [0xc6, 0x09, 0x02, 0x02, 0x22, 0x42, 0x42, 0x46, 0x00]\<lparr>bs_pos := q\<rparr>)
                (unat (v ((\<lambda>_. 0 :: nat) run))) ((\<lambda>_. 0 :: nat) run) v)) [0..<1] (Some (\<lambda>_. 0))
        = Some out" for q
    using r by simp
  show ?thesis
    using f v
    by (simp add: rlev2_values_def Integer_RLEv2_u32_def primes_len primes_scan BYTESTREAM_BFRSZ_def
        LOG2_BYTESTREAM_BFRSZ_def u32_def bytestream_flush_bytes_def upt_0_10 Let_def)
qed


section \<open>The loop over a chunk never takes its break\<close>


















end
